theory Spec2Isabelle
  imports Main "HOL-Library.Word" "HOL-Library.Multiset" "HOL-Library.Code_Target_Nat"
begin

section \<open>IP addresses and prefixes\<close>

text \<open>
  The allocator of \<^verbatim>\<open>ipam.go\<close> hands text to two libraries that are not part of the
  repository: Go's \<^verbatim>\<open>net\<close> package and \<^verbatim>\<open>github.com/metal-stack/go-ipam\<close>. Addresses
  and prefixes are modelled in parsed form: an address is its family and its value as a
  number (an IPv4-mapped IPv6 address \<^verbatim>\<open>::ffff:a.b.c.d\<close> is the V6 address
  \<open>0xFFFF * 2^32 + a.b.c.d\<close>), a CIDR is the address and the prefix length its text
  \<^verbatim>\<open>addr/len\<close> gives. Reading and printing the text is left to the libraries.
\<close>

datatype family = V4 | V6

fun bitlen :: "family \<Rightarrow> nat" where
  "bitlen V4 = 32"
| "bitlen V6 = 128"

datatype ipaddr = Addr (fam: family) (num: nat)

datatype cidr = Cidr (caddr: ipaddr) (plen: nat)

text \<open>
  The numeric checks of parsing the text of a CIDR: every field of the address in range
  (an IPv4 octet is at most 255), the prefix length at most the address's bit length.
\<close>

definition wellformed :: "cidr \<Rightarrow> bool" where
  "wellformed c =
     (num (caddr c) < 2 ^ bitlen (fam (caddr c)) \<and> plen c \<le> bitlen (fam (caddr c)))"

definition hostbits :: "cidr \<Rightarrow> nat" where
  "hostbits c = bitlen (fam (caddr c)) - plen c"

text \<open>The masked address of the prefix, and the last address of its range.\<close>

definition network :: "cidr \<Rightarrow> ipaddr" where
  "network c = Addr (fam (caddr c)) (num (caddr c) div 2 ^ hostbits c * 2 ^ hostbits c)"

definition broadcast :: "cidr \<Rightarrow> ipaddr" where
  "broadcast c = Addr (fam (caddr c)) (num (network c) + 2 ^ hostbits c - 1)"

text \<open>
  \<^verbatim>\<open>netip.Prefix.Contains\<close>: the families must agree (an IPv4 address is not in an IPv6
  prefix, an IPv4-mapped IPv6 address is not in an IPv4 prefix), and the leading
  \<open>plen\<close> bits.
\<close>

definition Contains :: "cidr \<Rightarrow> ipaddr \<Rightarrow> bool" where
  "Contains c a =
     (fam a = fam (caddr c) \<and> num a div 2 ^ hostbits c = num (caddr c) div 2 ^ hostbits c)"

text \<open>The addresses of the prefix, lowest first.\<close>

definition addrs :: "cidr \<Rightarrow> ipaddr list" where
  "addrs c = map (\<lambda>i. Addr (fam (caddr c)) (num (network c) + i)) [0 ..< 2 ^ hostbits c]"

subsection \<open>Go's net package, as firstHost uses it\<close>

text \<open>
  \<^verbatim>\<open>IP.To4\<close>: the four bytes of an IPv4 address, also of a 16-byte address in the
  IPv4-mapped range; nil (here \<open>None\<close>) otherwise.
\<close>

definition To4 :: "ipaddr \<Rightarrow> nat option" where
  "To4 a =
     (case fam a of
        V4 \<Rightarrow> Some (num a)
      | V6 \<Rightarrow> if num a div 2 ^ 32 = 65535 then Some (num a mod 2 ^ 32) else None)"

text \<open>\<^verbatim>\<open>v4[i]\<close>, byte \<open>i\<close> of a four-byte address, and \<^verbatim>\<open>net.IPv4(a, b, c, d)\<close>.\<close>

definition octet :: "nat \<Rightarrow> nat \<Rightarrow> nat" where
  "octet i v = v div 256 ^ (3 - i) mod 256"

definition IPv4 :: "nat \<Rightarrow> nat \<Rightarrow> nat \<Rightarrow> nat \<Rightarrow> ipaddr" where
  "IPv4 a b c d = Addr V4 (((a * 256 + b) * 256 + c) * 256 + d)"

text \<open>
  \<^verbatim>\<open>networkNumberAndMask\<close> of an \<^verbatim>\<open>IPNet\<close>: the network number cut to four bytes
  where \<^verbatim>\<open>To4\<close> applies, with the last four bytes of a 16-byte mask (\<open>plen - 96\<close> one
  bits). The result is the byte length (as a family), the number and the mask's ones.
\<close>

definition networkNumberAndMask :: "cidr \<Rightarrow> family \<times> nat \<times> nat" where
  "networkNumberAndMask n =
     (case To4 (network n) of
        Some v \<Rightarrow> (V4, v, (case fam (caddr n) of V4 \<Rightarrow> plen n | V6 \<Rightarrow> plen n - 96))
      | None \<Rightarrow> (V6, num (network n), plen n))"

text \<open>
  \<^verbatim>\<open>IPNet.Contains\<close>: the address is cut to four bytes where \<^verbatim>\<open>To4\<close> applies; byte
  lengths must then agree, and the masked bytes.
\<close>

definition IPNet_Contains :: "cidr \<Rightarrow> ipaddr \<Rightarrow> bool" where
  "IPNet_Contains n ip =
     (case networkNumberAndMask n of
        (f, nn, ones) \<Rightarrow>
          (case (case To4 ip of Some x \<Rightarrow> (V4, x) | None \<Rightarrow> (V6, num ip)) of
             (g, x) \<Rightarrow>
               f = g \<and> nn div 2 ^ (bitlen f - ones) = x div 2 ^ (bitlen f - ones)))"

section \<open>The address pool (go-ipam)\<close>

datatype error = ConfigError | PoolExhaustedError | NotInPrefix | AlreadyAllocated

text \<open>
  The pool is kept by the go-ipam library, whose code is not among the sources: a CIDR
  block and the set of addresses acquired in it. Its three operations are modelled from
  the spec.
\<close>

text \<open>
  Modelled from the spec: \<^verbatim>\<open>NewPrefix\<close> of go-ipam. Creation fails on a malformed
  prefix and marks the network address and, for IPv4, the broadcast address (the first
  host address is left to \<^verbatim>\<open>newAllocator\<close>, as its comment says).
\<close>

definition NewPrefix :: "cidr \<Rightarrow> error + ipaddr set" where
  "NewPrefix c =
     (if \<not> wellformed c then Inl ConfigError
      else Inr (if fam (caddr c) = V4 then {network c, broadcast c} else {network c}))"

text \<open>
  Modelled from the spec: \<^verbatim>\<open>AcquireSpecificIP\<close> of go-ipam. Marking fails, changing
  nothing, when the address is outside the prefix or already acquired.
\<close>

definition AcquireSpecificIP :: "cidr \<Rightarrow> ipaddr set \<Rightarrow> ipaddr \<Rightarrow> error + ipaddr set" where
  "AcquireSpecificIP c ips a =
     (if \<not> Contains c a then Inl NotInPrefix
      else if a \<in> ips then Inl AlreadyAllocated
      else Inr (insert a ips))"

text \<open>
  Modelled from the spec: \<^verbatim>\<open>AcquireIP\<close> of go-ipam. It takes the lowest-numbered
  address of the prefix that is not acquired and marks it, and fails when none remains.
\<close>

definition AcquireIP :: "cidr \<Rightarrow> ipaddr set \<Rightarrow> error + (ipaddr \<times> ipaddr set)" where
  "AcquireIP c ips =
     (case find (\<lambda>a. a \<notin> ips) (addrs c) of
        None \<Rightarrow> Inl PoolExhaustedError
      | Some a \<Rightarrow> Inr (a, insert a ips))"

section \<open>The allocator (ipam.go)\<close>

text \<open>
  \<open>ipm\<close> is the state of the \<^verbatim>\<open>Ipamer\<close>: the addresses it holds acquired for the
  allocator's one prefix.
\<close>

record allocator =
  ipm :: "ipaddr set"
  prefix :: cidr

text \<open>
  \<^verbatim>\<open>firstHost\<close>. \<^verbatim>\<open>net.ParseCIDR\<close> fails on a malformed CIDR and gives the
  masked network otherwise; the last byte is incremented as a byte, so 255 wraps to 0.
  The empty string is \<open>None\<close>; the text returned otherwise is the dotted form of an IPv4
  address.
\<close>

definition firstHost :: "cidr \<Rightarrow> ipaddr option" where
  "firstHost pr =
     (if \<not> wellformed pr then None
      else case To4 (network pr) of
        None \<Rightarrow> None
      | Some v4 \<Rightarrow>
          (let ip = IPv4 (octet 0 v4) (octet 1 v4) (octet 2 v4) ((octet 3 v4 + 1) mod 256)
           in if IPNet_Contains pr ip then Some ip else None))"

text \<open>\<^verbatim>\<open>newAllocator\<close>: the result of reserving the gateway is dropped.\<close>

definition newAllocator :: "cidr \<Rightarrow> error + allocator" where
  "newAllocator c =
     (case NewPrefix c of
        Inl err \<Rightarrow> Inl err
      | Inr ips \<Rightarrow>
          (case firstHost c of
             None \<Rightarrow> Inr \<lparr>ipm = ips, prefix = c\<rparr>
           | Some gw \<Rightarrow>
               (case AcquireSpecificIP c ips gw of
                  Inl _ \<Rightarrow> Inr \<lparr>ipm = ips, prefix = c\<rparr>
                | Inr ips' \<Rightarrow> Inr \<lparr>ipm = ips', prefix = c\<rparr>)))"

text \<open>\<^verbatim>\<open>reserve\<close>: best effort, an error of the library is swallowed.\<close>

definition reserve :: "allocator \<Rightarrow> ipaddr \<Rightarrow> allocator" where
  "reserve a ip =
     (case AcquireSpecificIP (prefix a) (ipm a) ip of
        Inl _ \<Rightarrow> a
      | Inr ips' \<Rightarrow> a\<lparr>ipm := ips'\<rparr>)"

text \<open>\<^verbatim>\<open>next\<close> (the name is an Isar keyword, hence \<open>alloc_next\<close>).\<close>

definition alloc_next :: "allocator \<Rightarrow> error + (ipaddr \<times> allocator)" where
  "alloc_next a =
     (case AcquireIP (prefix a) (ipm a) of
        Inl err \<Rightarrow> Inl err
      | Inr (addr, ips') \<Rightarrow> Inr (addr, a\<lparr>ipm := ips'\<rparr>))"

text \<open>
  \<open>n\<close> calls of \<^verbatim>\<open>next\<close> in a row: the result of each call, and the allocator after
  the last. A failed call leaves the allocator as it was.
\<close>

fun nexts :: "nat \<Rightarrow> allocator \<Rightarrow> (error + ipaddr) list \<times> allocator" where
  "nexts 0 a = ([], a)"
| "nexts (Suc n) a =
     (case alloc_next a of
        Inl err \<Rightarrow> (case nexts n a of (rs, a') \<Rightarrow> (Inl err # rs, a'))
      | Inr (x, a1) \<Rightarrow> (case nexts n a1 of (rs, a') \<Rightarrow> (Inr x # rs, a')))"

text \<open>The addresses that a list of results carries, in order.\<close>

fun successes :: "(error + 'a) list \<Rightarrow> 'a list" where
  "successes [] = []"
| "successes (Inl e # rs) = successes rs"
| "successes (Inr x # rs) = x # successes rs"

section \<open>Strings (Go's strings package, on ASCII text)\<close>

text \<open>
  A Go string is modelled as its bytes. \<^verbatim>\<open>strings.ToLower\<close> and
  \<^verbatim>\<open>strings.EqualFold\<close> are modelled on ASCII: the letters A to Z are mapped to a to z
  and every other byte is left as it is.
\<close>

definition toLower_char :: "char \<Rightarrow> char" where
  "toLower_char c =
     (case map_of (zip ''ABCDEFGHIJKLMNOPQRSTUVWXYZ'' ''abcdefghijklmnopqrstuvwxyz'') c of
        None \<Rightarrow> c
      | Some d \<Rightarrow> d)"

definition strings_ToLower :: "string \<Rightarrow> string" where
  "strings_ToLower s = map toLower_char s"

definition strings_EqualFold :: "string \<Rightarrow> string \<Rightarrow> bool" where
  "strings_EqualFold s t = (strings_ToLower s = strings_ToLower t)"

fun strings_HasPrefix :: "string \<Rightarrow> string \<Rightarrow> bool" where
  "strings_HasPrefix s [] = True"
| "strings_HasPrefix [] (p # ps) = False"
| "strings_HasPrefix (c # s) (p # ps) = (c = p \<and> strings_HasPrefix s ps)"

fun strings_Contains :: "string \<Rightarrow> string \<Rightarrow> bool" where
  "strings_Contains [] sub = (sub = [])"
| "strings_Contains (c # s) sub = (strings_HasPrefix (c # s) sub \<or> strings_Contains s sub)"

section \<open>The Redfish client (redfish.go)\<close>

record IPv4Address =
  Address :: string
  Origin :: string

text \<open>\<open>InterfaceEnabled\<close> is a \<^verbatim>\<open>*bool\<close>: \<open>None\<close> is the nil pointer.\<close>

record rfEthernetInterface =
  ID :: string
  Name :: string
  InterfaceEnabled :: "bool option"
  MACAddress :: string
  UefiDevicePath :: string
  IPv4Addresses :: "IPv4Address list"

text \<open>\<^verbatim>\<open>isBootable\<close>: the three tests of the source, in its order.\<close>

definition isBootable :: "rfEthernetInterface \<Rightarrow> bool" where
  "isBootable n =
     (let uefi = strings_ToLower (UefiDevicePath n) in
      if strings_Contains uefi ''pxe'' \<or> strings_Contains uefi ''ipv4'' \<or>
         strings_Contains uefi ''ipv6'' \<or> strings_Contains uefi ''mac(''
      then True
      else if list_ex (\<lambda>a. strings_EqualFold (Origin a) ''dhcp'') (IPv4Addresses n)
      then True
      else if MACAddress n \<noteq> [] \<and>
              (InterfaceEnabled n = None \<or> InterfaceEnabled n = Some True)
      then True
      else False)"

text \<open>
  The policy in the words of the spec, for comparison with \<open>isBootable\<close>. A path hint
  is one of the four markers occurring somewhere in the path, letter case ignored.
\<close>

definition path_hint :: "string \<Rightarrow> bool" where
  "path_hint p =
     (\<exists>h \<in> {''pxe'', ''ipv4'', ''ipv6'', ''mac(''}. \<exists>u v. strings_ToLower p = u @ h @ v)"

definition dhcp_origin :: "rfEthernetInterface \<Rightarrow> bool" where
  "dhcp_origin n = (\<exists>a \<in> set (IPv4Addresses n). strings_ToLower (Origin a) = ''dhcp'')"

definition bootable_policy :: "rfEthernetInterface \<Rightarrow> bool" where
  "bootable_policy n =
     (if path_hint (UefiDevicePath n) then True
      else if dhcp_origin n then True
      else MACAddress n \<noteq> [] \<and> InterfaceEnabled n \<noteq> Some False)"

section \<open>The inventory file\<close>

text \<open>An entry of \<^verbatim>\<open>bmcs\<close> or \<^verbatim>\<open>nodes\<close>: three strings.\<close>

record Entry =
  Xname :: string
  MAC :: string
  IP :: string

section \<open>Fleet status (cmd/firmware_status.go)\<close>



fun strings_Split :: "char \<Rightarrow> string \<Rightarrow> string list" where
  "strings_Split sep [] = [[]]"
| "strings_Split sep (c # s) =
     (if c = sep then [] # strings_Split sep s
      else (case strings_Split sep s of
              [] \<Rightarrow> [[c]]
            | w # ws \<Rightarrow> (c # w) # ws))"


text \<open>What a firmware inventory query returns, as far as the command reads it.\<close>

record Condition =
  Message :: string
  Severity :: string

record FirmwareInventory =
  Version :: string
  State :: string
  Conditions :: "Condition list"

text \<open>
  The shared results. Each goroutine changes them by three kinds of update, each done
  under the mutex or atomically: \<^verbatim>\<open>errorsList[h] = msg\<close>, \<^verbatim>\<open>versionCounts[ver]++\<close> and
  \<^verbatim>\<open>atomic.AddInt32(&inProgress, 1)\<close>.
\<close>

record aggregate =
  versionCounts :: "string \<rightharpoonup> nat"
  inProgress :: "32 word"
  errorsList :: "string \<rightharpoonup> string"

datatype update = SetError string string | CountVersion string | AddInProgress

fun apply_update :: "update \<Rightarrow> aggregate \<Rightarrow> aggregate" where
  "apply_update (SetError h msg) a = a\<lparr>errorsList := (errorsList a)(h \<mapsto> msg)\<rparr>"
| "apply_update (CountVersion v) a =
     a\<lparr>versionCounts := (versionCounts a)(v \<mapsto> (case versionCounts a v of None \<Rightarrow> 0 | Some k \<Rightarrow> k) + 1)\<rparr>"
| "apply_update AddInProgress a = a\<lparr>inProgress := inProgress a + 1\<rparr>"

definition empty_aggregate :: aggregate where
  "empty_aggregate = \<lparr>versionCounts = Map.empty, inProgress = 0, errorsList = Map.empty\<rparr>"

text \<open>The two tests that set \<^verbatim>\<open>anyInProgress\<close> for one inventory.\<close>

definition stateInProgress :: "string \<Rightarrow> bool" where
  "stateInProgress s =
     (let st = strings_ToLower s in st \<noteq> [] \<and> st \<noteq> ''enabled'' \<and> st \<noteq> ''ok'')"

definition conditionInProgress :: "Condition \<Rightarrow> bool" where
  "conditionInProgress c =
     (let m = strings_ToLower (Message c) in
      (strings_Contains m ''updat'' \<or> strings_Contains m ''in progress'' \<or>
       strings_Contains m ''install'' \<or> strings_Contains m ''running'') \<or>
      (Severity c = ''Warning'' \<or> Severity c = ''Critical''))"

text \<open>
  The loop over the targets in the goroutine of host \<open>h\<close>. \<open>gfi h target\<close> is the
  result of \<^verbatim>\<open>redfish.GetFirmwareInventory\<close>: an error message or an inventory. The loop
  carries the local variables \<^verbatim>\<open>ver\<close> and \<^verbatim>\<open>anyInProgress\<close> and gives the updates of
  the shared error map it makes, in order.
\<close>

fun scanTargets ::
  "(string \<Rightarrow> string \<Rightarrow> string + FirmwareInventory) \<Rightarrow> string \<Rightarrow> string list \<Rightarrow>
   string \<Rightarrow> bool \<Rightarrow> update list \<times> string \<times> bool" where
  "scanTargets gfi h [] ver anyInProgress = ([], ver, anyInProgress)"
| "scanTargets gfi h (target # targets) ver anyInProgress =
     (case gfi h target of
        Inl err \<Rightarrow>
          (case scanTargets gfi h targets ver anyInProgress of
             (us, r) \<Rightarrow> (SetError h err # us, r))
      | Inr fw \<Rightarrow>
          scanTargets gfi h targets
            (if ver = [] then Version fw else ver)
            (anyInProgress \<or> stateInProgress (State fw) \<or>
             list_ex conditionInProgress (Conditions fw)))"

text \<open>The updates one goroutine makes, in its order.\<close>

definition hostTask ::
  "(string \<Rightarrow> string \<Rightarrow> string + FirmwareInventory) \<Rightarrow> string list \<Rightarrow> string \<Rightarrow>
   update list" where
  "hostTask gfi targets h =
     (case scanTargets gfi h targets [] False of
        (us, ver, anyInProgress) \<Rightarrow>
          us @ [CountVersion (if ver = [] then ''(unknown)'' else ver)] @
          (if anyInProgress then [AddInProgress] else []))"

text \<open>
  The goroutines run concurrently, so the updates of different hosts reach the shared
  results in an order the scheduler chooses. A schedule is any order of the updates of
  all hosts; every interleaving of the goroutines is one. \<open>run_updates\<close> applies a
  schedule to the empty results; \<open>dispatch\<close> is the schedule that runs the hosts one
  after the other.
\<close>

definition schedule ::
  "(string \<Rightarrow> string \<Rightarrow> string + FirmwareInventory) \<Rightarrow> string list \<Rightarrow> string list \<Rightarrow>
   update list \<Rightarrow> bool" where
  "schedule gfi targets hosts us = (mset us = mset (concat (map (hostTask gfi targets) hosts)))"

definition run_updates :: "update list \<Rightarrow> aggregate" where
  "run_updates us = fold apply_update us empty_aggregate"

definition dispatch ::
  "(string \<Rightarrow> string \<Rightarrow> string + FirmwareInventory) \<Rightarrow> string list \<Rightarrow> string list \<Rightarrow>
   aggregate" where
  "dispatch gfi targets hosts = run_updates (concat (map (hostTask gfi targets) hosts))"

text \<open>The sum of the counts of a version map, and the count of one version.\<close>

definition count_sum :: "(string \<rightharpoonup> nat) \<Rightarrow> nat" where
  "count_sum m = (\<Sum>v \<in> dom m. the (m v))"

definition count_of :: "(string \<rightharpoonup> nat) \<Rightarrow> string \<Rightarrow> nat" where
  "count_of m v = (case m v of None \<Rightarrow> 0 | Some k \<Rightarrow> k)"

text \<open>What the goroutine of a host counts and flags, read off its loop.\<close>

definition summaryVersion ::
  "(string \<Rightarrow> string \<Rightarrow> string + FirmwareInventory) \<Rightarrow> string list \<Rightarrow> string \<Rightarrow> string" where
  "summaryVersion gfi targets h =
     (case scanTargets gfi h targets [] False of
        (us, ver, anyInProgress) \<Rightarrow> if ver = [] then ''(unknown)'' else ver)"

definition hostInProgress ::
  "(string \<Rightarrow> string \<Rightarrow> string + FirmwareInventory) \<Rightarrow> string list \<Rightarrow> string \<Rightarrow> bool" where
  "hostInProgress gfi targets h =
     (case scanTargets gfi h targets [] False of (us, ver, anyInProgress) \<Rightarrow> anyInProgress)"

text \<open>The updates that count a version.\<close>

fun isCount :: "update \<Rightarrow> bool" where
  "isCount (CountVersion v) = True"
| "isCount u = False"


section \<open>Discovery (main.go)\<close>

text \<open>
  What discovery takes from the network and from code that is not among the sources,
  as parameters:
  \<^item> \<open>queryNICs host\<close>: the answer of the controller at \<open>host\<close> to
    \<^verbatim>\<open>firstSystemPath\<close> followed by \<^verbatim>\<open>listEthernetInterfaces\<close>, the interfaces or
    the error of either call;
  \<^item> \<open>ParseIP\<close> and \<open>IPString\<close>: reading the text of an address (\<open>None\<close> is nil) and
    printing an address, of Go's \<^verbatim>\<open>net\<close> and \<^verbatim>\<open>netip\<close> packages;
  \<^item> \<open>bmcXnameToNode\<close>: the node xname of a controller's xname (\<^verbatim>\<open>xname.go\<close>).
\<close>

record externals =
  queryNICs :: "string \<Rightarrow> string + rfEthernetInterface list"
  ParseIP :: "string \<Rightarrow> ipaddr option"
  IPString :: "ipaddr \<Rightarrow> string"
  bmcXnameToNode :: "string \<Rightarrow> string"

text \<open>\<^verbatim>\<open>%d\<close> of \<^verbatim>\<open>fmt.Sprintf\<close> for a number that is not negative.\<close>

fun showNat :: "nat \<Rightarrow> string" where
  "showNat n =
     (if n < 10 then [''0123456789'' ! n]
      else showNat (n div 10) @ [''0123456789'' ! (n mod 10)])"

text \<open>\<^verbatim>\<open>findByXname\<close> (utils.go): the first entry of that xname.\<close>

fun findByXname :: "Entry list \<Rightarrow> string \<Rightarrow> Entry option" where
  "findByXname [] x = None"
| "findByXname (e # list) x = (if Xname e = x then Some e else findByXname list x)"

text \<open>
  The bootable interfaces of a controller: those with a MAC that \<open>isBootable\<close>
  accepts; where there is none, the first interface with a MAC.
\<close>

definition bootableNICs :: "rfEthernetInterface list \<Rightarrow> rfEthernetInterface list" where
  "bootableNICs nics =
     (let bootable = filter (\<lambda>nic. MACAddress nic \<noteq> [] \<and> isBootable nic) nics in
      if bootable = []
      then (case find (\<lambda>nic. MACAddress nic \<noteq> []) nics of
              None \<Rightarrow> []
            | Some nic \<Rightarrow> [nic])
      else bootable)"

text \<open>The calls of \<^verbatim>\<open>die\<close> that discovery can reach after reading its input.\<close>

datatype fatal = EmptyBMCs | IpamInit error | IpamAllocate string error

text \<open>
  The loop over the bootable interfaces of the controller \<open>bx\<close>: \<open>len\<close> is their
  number, \<open>idx\<close> the index of the first of \<open>nics\<close>. The result is the entries the loop
  appends to \<^verbatim>\<open>out\<close> and the allocator after it. An address of the existing node list
  is passed to \<^verbatim>\<open>reserve\<close> as the address its text reads as.
\<close>

fun assignNICs ::
  "externals \<Rightarrow> Entry list \<Rightarrow> string \<Rightarrow> nat \<Rightarrow> nat \<Rightarrow> rfEthernetInterface list \<Rightarrow>
   allocator \<Rightarrow> fatal + (Entry list \<times> allocator)" where
  "assignNICs E nodes bx len idx [] alloc = Inr ([], alloc)"
| "assignNICs E nodes bx len idx (nic # nics) alloc =
     (let nodeX = (if len > 1 then bmcXnameToNode E bx @ ''-pxe'' @ showNat (idx + 1)
                   else bmcXnameToNode E bx)
      in case
           (case findByXname nodes nodeX of
              None \<Rightarrow> None
            | Some existing \<Rightarrow>
                (case ParseIP E (IP existing) of
                   None \<Rightarrow> None
                 | Some ip \<Rightarrow> Some (IP existing, ip)))
         of
           Some (ipStr, ip) \<Rightarrow>
             (case assignNICs E nodes bx len (idx + 1) nics (reserve alloc ip) of
                Inl f \<Rightarrow> Inl f
              | Inr (out, alloc') \<Rightarrow>
                  Inr (\<lparr>Xname = nodeX, MAC = strings_ToLower (MACAddress nic), IP = ipStr\<rparr> # out,
                       alloc'))
         | None \<Rightarrow>
             (case alloc_next alloc of
                Inl err \<Rightarrow> Inl (IpamAllocate nodeX err)
              | Inr (addr, alloc1) \<Rightarrow>
                  (case assignNICs E nodes bx len (idx + 1) nics alloc1 of
                     Inl f \<Rightarrow> Inl f
                   | Inr (out, alloc') \<Rightarrow>
                       Inr (\<lparr>Xname = nodeX, MAC = strings_ToLower (MACAddress nic),
                             IP = IPString E addr\<rparr> # out,
                            alloc'))))"

text \<open>
  The loop over the controllers. The result is the entries appended to \<^verbatim>\<open>out\<close> and
  the hosts for which a client was made, in order. A controller that does not answer, or
  has no interface with a MAC, is skipped with a warning.
\<close>

fun discoverBMCs ::
  "externals \<Rightarrow> Entry list \<Rightarrow> Entry list \<Rightarrow> allocator \<Rightarrow>
   fatal + (Entry list \<times> string list)" where
  "discoverBMCs E nodes [] alloc = Inr ([], [])"
| "discoverBMCs E nodes (b # bmcs) alloc =
     (let host = (if IP b = [] then Xname b else IP b) in
      case queryNICs E host of
        Inl err \<Rightarrow>
          (case discoverBMCs E nodes bmcs alloc of
             Inl f \<Rightarrow> Inl f
           | Inr (out, hosts) \<Rightarrow> Inr (out, host # hosts))
      | Inr nics \<Rightarrow>
          (case assignNICs E nodes (Xname b) (length (bootableNICs nics)) 0 (bootableNICs nics)
                  alloc of
             Inl f \<Rightarrow> Inl f
           | Inr (new, alloc1) \<Rightarrow>
               (case discoverBMCs E nodes bmcs alloc1 of
                  Inl f \<Rightarrow> Inl f
                | Inr (out, hosts) \<Rightarrow> Inr (new @ out, host # hosts))))"

text \<open>The loop that reserves the addresses of the existing node list.\<close>

fun reserveExisting :: "externals \<Rightarrow> Entry list \<Rightarrow> allocator \<Rightarrow> allocator" where
  "reserveExisting E [] alloc = alloc"
| "reserveExisting E (n # nodes) alloc =
     (case ParseIP E (IP n) of
        None \<Rightarrow> reserveExisting E nodes alloc
      | Some ip \<Rightarrow> reserveExisting E nodes (reserve alloc ip))"

text \<open>
  Discovery from the loaded file on: \<open>bmcs\<close> and \<open>nodes\<close> are the two lists of the
  file, the result is the new node list (and the hosts contacted), or the call of
  \<^verbatim>\<open>die\<close> that ended the run.
\<close>

definition discover ::
  "externals \<Rightarrow> cidr \<Rightarrow> Entry list \<Rightarrow> Entry list \<Rightarrow> fatal + (Entry list \<times> string list)" where
  "discover E subnet bmcs nodes =
     (if bmcs = [] then Inl EmptyBMCs
      else case newAllocator subnet of
        Inl err \<Rightarrow> Inl (IpamInit err)
      | Inr alloc \<Rightarrow> discoverBMCs E nodes bmcs (reserveExisting E nodes alloc))"

subsection \<open>An environment for examples\<close>

text \<open>
  IPv4 addresses in dotted decimal, every controller answering with one enabled
  interface, and a node xname made by appending \<^verbatim>\<open>n0\<close>.
\<close>

fun readNat :: "string \<Rightarrow> nat option" where
  "readNat s =
     (if s \<noteq> [] \<and> list_all (\<lambda>c. c \<in> set ''0123456789'') s
      then Some (foldl (\<lambda>n c. 10 * n + length (takeWhile (\<lambda>d. d \<noteq> c) ''0123456789'')) 0 s)
      else None)"

definition parseDotted :: "string \<Rightarrow> ipaddr option" where
  "parseDotted s =
     (case map readNat (strings_Split CHR ''.'' s) of
        [Some a, Some b, Some c, Some d] \<Rightarrow>
          if a \<le> 255 \<and> b \<le> 255 \<and> c \<le> 255 \<and> d \<le> 255 then Some (IPv4 a b c d) else None
      | _ \<Rightarrow> None)"

definition showDotted :: "ipaddr \<Rightarrow> string" where
  "showDotted a =
     showNat (octet 0 (num a)) @ ''.'' @ showNat (octet 1 (num a)) @ ''.'' @
     showNat (octet 2 (num a)) @ ''.'' @ showNat (octet 3 (num a))"

definition example_externals :: externals where
  "example_externals =
     \<lparr>queryNICs = (\<lambda>host. Inr [\<lparr>ID = ''1'', Name = ''eth0'', InterfaceEnabled = Some True,
                                 MACAddress = ''B4:2E:99:A1:B2:C3'', UefiDevicePath = [],
                                 IPv4Addresses = []\<rparr>]),
      ParseIP = parseDotted,
      IPString = showDotted,
      bmcXnameToNode = (\<lambda>x. x @ ''n0'')\<rparr>"

section \<open>The admission gate of the fleet dispatch (cmd/firmware_status.go)\<close>

text \<open>
  The dispatch starts one goroutine per host. Each sends a token into the buffered
  channel \<^verbatim>\<open>sem\<close>, which blocks while the channel is full, runs the operation of its
  host, and takes a token out when it returns. A goroutine is \<open>Waiting\<close> before its send
  has completed, \<open>Running\<close> (its operation in flight) until it takes the token out, and
  \<open>Done\<close> after. The state is the number of tokens in the channel and the phase of
  every goroutine; a step is one send or one receive completing, in any order the
  scheduler chooses.
\<close>

datatype phase = Waiting | Running | Done

record gate =
  sem :: nat
  phases :: "phase list"

text \<open>The capacity of the channel: \<^verbatim>\<open>max(1, fwBatchSize)\<close>.\<close>

definition capacity :: "int \<Rightarrow> nat" where
  "capacity fwBatchSize = nat (max 1 fwBatchSize)"

inductive step :: "nat \<Rightarrow> gate \<Rightarrow> gate \<Rightarrow> bool" for cap :: nat where
  acquire:
    "i < length (phases s) \<Longrightarrow> phases s ! i = Waiting \<Longrightarrow> sem s < cap \<Longrightarrow>
     step cap s \<lparr>sem = sem s + 1, phases = (phases s)[i := Running]\<rparr>"
| release:
    "i < length (phases s) \<Longrightarrow> phases s ! i = Running \<Longrightarrow>
     step cap s \<lparr>sem = sem s - 1, phases = (phases s)[i := Done]\<rparr>"

text \<open>The states a dispatch over \<open>n\<close> hosts can be in.\<close>

inductive reachable :: "nat \<Rightarrow> nat \<Rightarrow> gate \<Rightarrow> bool" for cap :: nat and n :: nat where
  start: "reachable cap n \<lparr>sem = 0, phases = replicate n Waiting\<rparr>"
| next_state: "reachable cap n s \<Longrightarrow> step cap s s' \<Longrightarrow> reachable cap n s'"

text \<open>The number of operations in flight.\<close>

definition in_flight :: "gate \<Rightarrow> nat" where
  "in_flight s = count_list (phases s) Running"

section \<open>Properties of the address pool\<close>

lemma in_block_iff:
  fixes P :: nat
  assumes "0 < P"
  shows "(x div P = n div P) = (\<exists>i<P. x = n div P * P + i)"
proof
  assume h: "x div P = n div P"
  have "x = x div P * P + x mod P" by simp
  with h have "x = n div P * P + x mod P" by simp
  moreover have "x mod P < P" using assms by simp
  ultimately show "\<exists>i<P. x = n div P * P + i" by blast
next
  assume "\<exists>i<P. x = n div P * P + i"
  then obtain i where "i < P" "x = n div P * P + i" by blast
  then show "x div P = n div P" using assms by simp
qed

lemma length_addrs: "length (addrs c) = 2 ^ hostbits c"
  by (simp add: addrs_def)

lemma nth_addrs:
  "i < 2 ^ hostbits c \<Longrightarrow> addrs c ! i = Addr (fam (caddr c)) (num (network c) + i)"
  by (simp add: addrs_def)

lemma set_addrs: "(a \<in> set (addrs c)) = Contains c a"
proof -
  have P: "(0::nat) < 2 ^ hostbits c" by simp
  show ?thesis
  proof
    assume "a \<in> set (addrs c)"
    then obtain i where i: "i < 2 ^ hostbits c"
      and a: "a = Addr (fam (caddr c)) (num (network c) + i)"
      by (auto simp: addrs_def)
    have "num a div 2 ^ hostbits c = num (caddr c) div 2 ^ hostbits c"
      using in_block_iff [OF P, of "num a" "num (caddr c)"] i a
      by (auto simp: network_def)
    with a show "Contains c a" by (simp add: Contains_def)
  next
    assume "Contains c a"
    then have f: "fam a = fam (caddr c)"
      and d: "num a div 2 ^ hostbits c = num (caddr c) div 2 ^ hostbits c"
      by (simp_all add: Contains_def)
    from d obtain i where i: "i < 2 ^ hostbits c"
      and n: "num a = num (network c) + i"
      using in_block_iff [OF P, of "num a" "num (caddr c)"]
      by (auto simp: network_def)
    have "a = Addr (fam (caddr c)) (num (network c) + i)"
      using f n by (cases a) simp
    with i show "a \<in> set (addrs c)" by (auto simp: addrs_def)
  qed
qed

lemma Contains_network: "Contains c (network c)"
  by (simp add: Contains_def network_def)

lemma AcquireIP_Inr:
  assumes "AcquireIP c ips = Inr (x, ips')"
  shows "Contains c x" and "x \<notin> ips" and "ips' = insert x ips"
    and "\<And>y. Contains c y \<Longrightarrow> num y < num x \<Longrightarrow> y \<in> ips"
proof -
  from assms have f: "find (\<lambda>a. a \<notin> ips) (addrs c) = Some x" and i: "ips' = insert x ips"
    by (auto simp: AcquireIP_def split: option.splits)
  from f obtain i where il: "i < length (addrs c)" and nx: "addrs c ! i \<notin> ips"
    and x: "x = addrs c ! i" and lo: "\<forall>j<i. \<not> (addrs c ! j \<notin> ips)"
    unfolding find_Some_iff by blast
  from il x have "x \<in> set (addrs c)" by simp
  then show "Contains c x" by (simp add: set_addrs)
  from nx x show "x \<notin> ips" by simp
  from i show "ips' = insert x ips" .
  fix y assume cy: "Contains c y" and lt: "num y < num x"
  from cy have "y \<in> set (addrs c)" by (simp add: set_addrs)
  then obtain j where jl: "j < 2 ^ hostbits c" and y: "y = addrs c ! j"
    by (auto simp: in_set_conv_nth length_addrs)
  from il have il': "i < 2 ^ hostbits c" by (simp add: length_addrs)
  from lt x y il' jl have "j < i" by (simp add: nth_addrs)
  with lo y show "y \<in> ips" by blast
qed

lemma AcquireIP_Inl:
  "(AcquireIP c ips = Inl e) = (e = PoolExhaustedError \<and> (\<forall>y. Contains c y \<longrightarrow> y \<in> ips))"
proof (cases "find (\<lambda>a. a \<notin> ips) (addrs c)")
  case None
  then have "\<forall>y. Contains c y \<longrightarrow> y \<in> ips"
    by (auto simp: find_None_iff set_addrs)
  with None show ?thesis by (auto simp: AcquireIP_def)
next
  case (Some x)
  then obtain i where "i < length (addrs c)" "addrs c ! i \<notin> ips" "x = addrs c ! i"
    unfolding find_Some_iff by blast
  then have "x \<in> set (addrs c)" "x \<notin> ips" by simp_all
  then have "\<exists>y. Contains c y \<and> y \<notin> ips" by (auto simp: set_addrs)
  with Some show ?thesis by (auto simp: AcquireIP_def)
qed

lemma alloc_next_Inr:
  assumes "alloc_next a = Inr (x, a')"
  shows "Contains (prefix a) x" and "x \<notin> ipm a" and "a' = a\<lparr>ipm := insert x (ipm a)\<rparr>"
    and "\<And>y. Contains (prefix a) y \<Longrightarrow> num y < num x \<Longrightarrow> y \<in> ipm a"
proof -
  from assms obtain ips' where A: "AcquireIP (prefix a) (ipm a) = Inr (x, ips')"
    and a': "a' = a\<lparr>ipm := ips'\<rparr>"
    by (auto simp: alloc_next_def split: sum.splits)
  show "Contains (prefix a) x" by (rule AcquireIP_Inr(1) [OF A])
  show "x \<notin> ipm a" by (rule AcquireIP_Inr(2) [OF A])
  show "a' = a\<lparr>ipm := insert x (ipm a)\<rparr>" using a' AcquireIP_Inr(3) [OF A] by simp
  fix y assume "Contains (prefix a) y" "num y < num x"
  then show "y \<in> ipm a" by (rule AcquireIP_Inr(4) [OF A])
qed

lemma alloc_next_Inl:
  "(alloc_next a = Inl e) =
     (e = PoolExhaustedError \<and> (\<forall>y. Contains (prefix a) y \<longrightarrow> y \<in> ipm a))"
proof -
  have "(alloc_next a = Inl e) = (AcquireIP (prefix a) (ipm a) = Inl e)"
    by (auto simp: alloc_next_def split: sum.splits)
  then show ?thesis by (simp add: AcquireIP_Inl)
qed

text \<open>The addresses a list of results carries.\<close>

lemma nexts_prefix: "nexts n a = (rs, a') \<Longrightarrow> prefix a' = prefix a"
proof (induction n arbitrary: a rs a')
  case 0
  then show ?case by simp
next
  case (Suc n)
  show ?case
  proof (cases "alloc_next a")
    case (Inl e)
    with Suc.prems obtain rs' where "nexts n a = (rs', a')"
      by (auto split: prod.splits)
    then show ?thesis by (rule Suc.IH)
  next
    case (Inr p)
    obtain x a1 where p: "p = (x, a1)" by (cases p)
    with Inr Suc.prems obtain rs' where "nexts n a1 = (rs', a')"
      by (auto split: prod.splits)
    then have "prefix a' = prefix a1" by (rule Suc.IH)
    moreover have "prefix a1 = prefix a"
      using alloc_next_Inr(3) [of a x a1] Inr p by simp
    ultimately show ?thesis by simp
  qed
qed

lemma nexts_results:
  "nexts n a = (rs, a') \<Longrightarrow>
     ipm a \<subseteq> ipm a' \<and> distinct (successes rs) \<and>
     (\<forall>x \<in> set (successes rs). x \<notin> ipm a \<and> x \<in> ipm a' \<and> Contains (prefix a) x)"
proof (induction n arbitrary: a rs a')
  case 0
  then show ?case by simp
next
  case (Suc n)
  show ?case
  proof (cases "alloc_next a")
    case (Inl e)
    with Suc.prems obtain rs' where n: "nexts n a = (rs', a')" and rs: "rs = Inl e # rs'"
      by (auto split: prod.splits)
    from Suc.IH [OF n] rs show ?thesis by simp
  next
    case (Inr p)
    obtain x a1 where p: "p = (x, a1)" by (cases p)
    with Inr Suc.prems obtain rs' where n: "nexts n a1 = (rs', a')" and rs: "rs = Inr x # rs'"
      by (auto split: prod.splits)
    have a1: "a1 = a\<lparr>ipm := insert x (ipm a)\<rparr>" and xn: "x \<notin> ipm a"
      and cx: "Contains (prefix a) x"
      using alloc_next_Inr [of a x a1] Inr p by simp_all
    from Suc.IH [OF n] a1 xn cx rs show ?thesis by auto
  qed
qed

lemma newAllocator_Inl: "(newAllocator c = Inl e) = (\<not> wellformed c \<and> e = ConfigError)"
  by (auto simp: newAllocator_def NewPrefix_def split: option.splits sum.splits)

lemma newAllocator_Inr:
  assumes "newAllocator c = Inr a"
  shows "wellformed c" and "prefix a = c" and "network c \<in> ipm a"
    and "fam (caddr c) = V4 \<Longrightarrow> broadcast c \<in> ipm a"
    and "\<And>g. firstHost c = Some g \<Longrightarrow> g \<in> ipm a \<or> \<not> Contains c g"
  using assms
  by (auto simp: newAllocator_def NewPrefix_def AcquireSpecificIP_def
      split: option.splits sum.splits if_splits)

lemma reserve_acquired: "Contains (prefix a) x \<Longrightarrow> x \<in> ipm (reserve a x)"
  by (simp add: reserve_def AcquireSpecificIP_def)

lemma reserve_prefix: "prefix (reserve a x) = prefix a"
  by (simp add: reserve_def AcquireSpecificIP_def)

lemma reserve_mono: "ipm a \<subseteq> ipm (reserve a x)"
  by (auto simp: reserve_def AcquireSpecificIP_def)

subsection \<open>A pool of eight addresses, evaluated\<close>


lemmas pool_eval =
  newAllocator_def NewPrefix_def wellformed_def IPv4_def firstHost_def To4_def network_def
  hostbits_def octet_def IPNet_Contains_def networkNumberAndMask_def broadcast_def
  AcquireSpecificIP_def Contains_def reserve_def alloc_next_def AcquireIP_def addrs_def

lemma new29:
  "newAllocator (Cidr (IPv4 10 42 0 0) 29) =
     Inr \<lparr>ipm = {IPv4 10 42 0 1, IPv4 10 42 0 0, IPv4 10 42 0 7},
          prefix = Cidr (IPv4 10 42 0 0) 29\<rparr>"
  by (simp add: pool_eval)

lemma nexts29:
  "nexts 6 \<lparr>ipm = {IPv4 10 42 0 1, IPv4 10 42 0 0, IPv4 10 42 0 7},
             prefix = Cidr (IPv4 10 42 0 0) 29\<rparr> =
     ([Inr (IPv4 10 42 0 2), Inr (IPv4 10 42 0 3), Inr (IPv4 10 42 0 4),
       Inr (IPv4 10 42 0 5), Inr (IPv4 10 42 0 6), Inl PoolExhaustedError],
      \<lparr>ipm = {IPv4 10 42 0 6, IPv4 10 42 0 5, IPv4 10 42 0 4, IPv4 10 42 0 3,
              IPv4 10 42 0 2, IPv4 10 42 0 1, IPv4 10 42 0 0, IPv4 10 42 0 7},
       prefix = Cidr (IPv4 10 42 0 0) 29\<rparr>)"
  by code_simp


lemma fresh_results:
  assumes new: "newAllocator c = Inr a0" and run: "nexts n a0 = (rs, a1)"
    and r: "r \<in> set (successes rs)"
  shows "r \<noteq> network c" and "fam (caddr c) = V4 \<Longrightarrow> r \<noteq> broadcast c"
    and "firstHost c \<noteq> Some r"
proof -
  from nexts_results [OF run] r have out: "r \<notin> ipm a0" and inp: "Contains (prefix a0) r"
    by blast+
  from inp have cr: "Contains c r" by (simp add: newAllocator_Inr(2) [OF new])
  show "r \<noteq> network c" using out newAllocator_Inr(3) [OF new] by blast
  show "fam (caddr c) = V4 \<Longrightarrow> r \<noteq> broadcast c"
    using out newAllocator_Inr(4) [OF new] by blast
  show "firstHost c \<noteq> Some r"
    using out cr newAllocator_Inr(5) [OF new, of r] by blast
qed

text \<open>
  C5. \<^verbatim>\<open>next\<close> returns the lowest-numbered address of the prefix that is not acquired
  and marks it acquired in the same step; it fails, with the pool-exhausted error, exactly
  when every address of the prefix is acquired. The addresses that successive calls on a
  new allocator return are pairwise distinct, and none is the network address, the
  broadcast address (IPv4) or the address \<^verbatim>\<open>firstHost\<close> gave for reservation.
\<close>

theorem C5_next_lowest_unacquired:
  "(alloc_next a = Inr (x, a') \<longrightarrow>
      Contains (prefix a) x \<and> x \<notin> ipm a \<and>
      (\<forall>y. Contains (prefix a) y \<and> num y < num x \<longrightarrow> y \<in> ipm a) \<and>
      a' = a\<lparr>ipm := insert x (ipm a)\<rparr>) \<and>
   ((alloc_next a = Inl PoolExhaustedError) = (\<forall>y. Contains (prefix a) y \<longrightarrow> y \<in> ipm a)) \<and>
   (alloc_next a = Inl e \<longrightarrow> e = PoolExhaustedError) \<and>
   (newAllocator c = Inr a0 \<and> nexts n a0 = (rs, a1) \<longrightarrow>
      distinct (successes rs) \<and>
      (\<forall>r \<in> set (successes rs).
         r \<noteq> network c \<and> (fam (caddr c) = V4 \<longrightarrow> r \<noteq> broadcast c) \<and> firstHost c \<noteq> Some r))"
proof (intro conjI impI)
  assume n: "alloc_next a = Inr (x, a')"
  show "Contains (prefix a) x" by (rule alloc_next_Inr(1) [OF n])
  show "x \<notin> ipm a" by (rule alloc_next_Inr(2) [OF n])
  show "\<forall>y. Contains (prefix a) y \<and> num y < num x \<longrightarrow> y \<in> ipm a"
    using alloc_next_Inr(4) [OF n] by blast
  show "a' = a\<lparr>ipm := insert x (ipm a)\<rparr>" by (rule alloc_next_Inr(3) [OF n])
next
  show "(alloc_next a = Inl PoolExhaustedError) = (\<forall>y. Contains (prefix a) y \<longrightarrow> y \<in> ipm a)"
    by (simp add: alloc_next_Inl)
next
  assume "alloc_next a = Inl e"
  then show "e = PoolExhaustedError" by (simp add: alloc_next_Inl)
next
  assume h: "newAllocator c = Inr a0 \<and> nexts n a0 = (rs, a1)"
  then have new: "newAllocator c = Inr a0" and run: "nexts n a0 = (rs, a1)" by simp_all
  from nexts_results [OF run] show "distinct (successes rs)" by simp
  show "\<forall>r \<in> set (successes rs).
         r \<noteq> network c \<and> (fam (caddr c) = V4 \<longrightarrow> r \<noteq> broadcast c) \<and> firstHost c \<noteq> Some r"
  proof
    fix r assume r: "r \<in> set (successes rs)"
    with nexts_results [OF run] have out: "r \<notin> ipm a0" and inp: "Contains (prefix a0) r"
      by auto
    from inp have cr: "Contains c r" by (simp add: newAllocator_Inr(2) [OF new])
    have "r \<noteq> network c" using out newAllocator_Inr(3) [OF new] by auto
    moreover have "fam (caddr c) = V4 \<longrightarrow> r \<noteq> broadcast c"
      using out newAllocator_Inr(4) [OF new] by auto
    moreover have "firstHost c \<noteq> Some r"
      using out cr newAllocator_Inr(5) [OF new, of r] by auto
    ultimately show
      "r \<noteq> network c \<and> (fam (caddr c) = V4 \<longrightarrow> r \<noteq> broadcast c) \<and> firstHost c \<noteq> Some r"
      by simp
  qed
qed

theorem C5_next_lowest_unacquired_witness:
  "alloc_next \<lparr>ipm = {IPv4 10 42 0 1, IPv4 10 42 0 0, IPv4 10 42 0 7},
                prefix = Cidr (IPv4 10 42 0 0) 29\<rparr> =
     Inr (IPv4 10 42 0 2,
          \<lparr>ipm = {IPv4 10 42 0 2, IPv4 10 42 0 1, IPv4 10 42 0 0, IPv4 10 42 0 7},
           prefix = Cidr (IPv4 10 42 0 0) 29\<rparr>) \<and>
   newAllocator (Cidr (IPv4 10 42 0 0) 29) =
     Inr \<lparr>ipm = {IPv4 10 42 0 1, IPv4 10 42 0 0, IPv4 10 42 0 7},
          prefix = Cidr (IPv4 10 42 0 0) 29\<rparr> \<and>
   fst (nexts 6 \<lparr>ipm = {IPv4 10 42 0 1, IPv4 10 42 0 0, IPv4 10 42 0 7},
                  prefix = Cidr (IPv4 10 42 0 0) 29\<rparr>) =
     [Inr (IPv4 10 42 0 2), Inr (IPv4 10 42 0 3), Inr (IPv4 10 42 0 4),
      Inr (IPv4 10 42 0 5), Inr (IPv4 10 42 0 6), Inl PoolExhaustedError] \<and>
   Contains (Cidr (IPv4 10 42 0 0) 29) (IPv4 10 42 0 2) \<and>
   IPv4 10 42 0 2 \<notin> {IPv4 10 42 0 1, IPv4 10 42 0 0, IPv4 10 42 0 7} \<and>
   distinct [IPv4 10 42 0 2, IPv4 10 42 0 3, IPv4 10 42 0 4, IPv4 10 42 0 5, IPv4 10 42 0 6] \<and>
   firstHost (Cidr (IPv4 10 42 0 0) 29) \<noteq> Some (IPv4 10 42 0 2)"
proof -
  let ?c = "Cidr (IPv4 10 42 0 0) 29"
  let ?a = "\<lparr>ipm = {IPv4 10 42 0 1, IPv4 10 42 0 0, IPv4 10 42 0 7}, prefix = ?c\<rparr>"
  let ?a' = "\<lparr>ipm = {IPv4 10 42 0 2, IPv4 10 42 0 1, IPv4 10 42 0 0, IPv4 10 42 0 7},
              prefix = ?c\<rparr>"
  let ?rs = "[Inr (IPv4 10 42 0 2), Inr (IPv4 10 42 0 3), Inr (IPv4 10 42 0 4),
      Inr (IPv4 10 42 0 5), Inr (IPv4 10 42 0 6), Inl PoolExhaustedError]"
  let ?a1 = "\<lparr>ipm = {IPv4 10 42 0 6, IPv4 10 42 0 5, IPv4 10 42 0 4, IPv4 10 42 0 3,
              IPv4 10 42 0 2, IPv4 10 42 0 1, IPv4 10 42 0 0, IPv4 10 42 0 7},
       prefix = ?c\<rparr>"
  have n: "alloc_next ?a = Inr (IPv4 10 42 0 2, ?a')" by code_simp
  note inst = C5_next_lowest_unacquired
    [of ?a "IPv4 10 42 0 2" ?a' PoolExhaustedError ?c ?a 6 ?rs ?a1]
  have run: "nexts 6 ?a = (?rs, ?a1)" by (rule nexts29)
  from inst n new29 run show ?thesis by simp
qed

text \<open>
  C3. After \<^verbatim>\<open>reserve(A)\<close> for an address \<open>A\<close> inside the pool's prefix, no
  number of calls of \<^verbatim>\<open>next\<close> returns \<open>A\<close>.
\<close>

theorem C3_reserved_never_allocated:
  assumes "Contains (prefix a) A" and "nexts n (reserve a A) = (rs, a')"
  shows "A \<notin> set (successes rs)"
proof
  assume "A \<in> set (successes rs)"
  with nexts_results [OF assms(2)] have "A \<notin> ipm (reserve a A)" by blast
  with reserve_acquired [OF assms(1)] show False by simp
qed

theorem C3_reserved_never_allocated_witness:
  "Contains (Cidr (IPv4 10 42 0 0) 29) (IPv4 10 42 0 2) \<and>
   fst (nexts 3 (reserve \<lparr>ipm = {IPv4 10 42 0 1, IPv4 10 42 0 0, IPv4 10 42 0 7},
                          prefix = Cidr (IPv4 10 42 0 0) 29\<rparr> (IPv4 10 42 0 2))) =
     [Inr (IPv4 10 42 0 3), Inr (IPv4 10 42 0 4), Inr (IPv4 10 42 0 5)] \<and>
   IPv4 10 42 0 2 \<notin> set (successes
     (fst (nexts 3 (reserve \<lparr>ipm = {IPv4 10 42 0 1, IPv4 10 42 0 0, IPv4 10 42 0 7},
                          prefix = Cidr (IPv4 10 42 0 0) 29\<rparr> (IPv4 10 42 0 2)))))"
proof -
  let ?a = "\<lparr>ipm = {IPv4 10 42 0 1, IPv4 10 42 0 0, IPv4 10 42 0 7},
             prefix = Cidr (IPv4 10 42 0 0) 29\<rparr>"
  let ?A = "IPv4 10 42 0 2"
  have c: "Contains (prefix ?a) ?A" by code_simp
  have r: "fst (nexts 3 (reserve ?a ?A)) =
     [Inr (IPv4 10 42 0 3), Inr (IPv4 10 42 0 4), Inr (IPv4 10 42 0 5)]" by code_simp
  have "nexts 3 (reserve ?a ?A) = (fst (nexts 3 (reserve ?a ?A)), snd (nexts 3 (reserve ?a ?A)))"
    by simp
  from C3_reserved_never_allocated [OF c this] c r show ?thesis by simp
qed

subsection \<open>The gateway address\<close>

lemma octets_recompose:
  assumes "v < 2 ^ 32"
  shows "((octet 0 v * 256 + octet 1 v) * 256 + octet 2 v) * 256 + octet 3 v = v"
proof -
  define a where "a = v div 256"
  define b where "b = a div 256"
  define c where "c = b div 256"
  have o3: "octet 3 v = v mod 256" by (simp add: octet_def)
  have o2: "octet 2 v = a mod 256" by (simp add: octet_def a_def)
  have "v div 256 ^ 2 = b" by (simp add: a_def b_def div_mult2_eq power2_eq_square)
  then have o1: "octet 1 v = b mod 256" by (simp add: octet_def)
  have c3: "v div 256 ^ 3 = c"
    by (simp add: a_def b_def c_def div_mult2_eq power3_eq_cube)
  have "v < 256 * (256 * (256 * 256))" using assms by simp
  then have "c < 256" unfolding a_def b_def c_def by (simp add: less_mult_imp_div_less)
  with c3 have o0: "octet 0 v = c" by (simp add: octet_def)
  have e1: "c * 256 + b mod 256 = b" by (simp add: c_def)
  have e2: "b * 256 + a mod 256 = a" by (simp add: b_def)
  have e3: "a * 256 + v mod 256 = v" by (simp add: a_def)
  show ?thesis by (simp only: o0 o1 o2 o3 e1 e2 e3)
qed

lemma network_multiple: "num (network c) = num (caddr c) div 2 ^ hostbits c * 2 ^ hostbits c"
  by (simp add: network_def)

lemma network_le: "num (network c) \<le> num (caddr c)"
  by (simp add: network_def)

lemma network_even: "1 \<le> hostbits c \<Longrightarrow> even (num (network c))"
  by (simp add: network_def)

lemma network_succ_div:
  assumes "1 \<le> hostbits c"
  shows "(num (network c) + 1) div 2 ^ hostbits c = num (caddr c) div 2 ^ hostbits c"
proof -
  have "(2::nat) ^ 1 \<le> 2 ^ hostbits c" using assms by (intro power_increasing) simp_all
  then have one: "(1::nat) < 2 ^ hostbits c" by simp
  have P: "(0::nat) < 2 ^ hostbits c" by simp
  show ?thesis
    unfolding in_block_iff [OF P] network_multiple using one by blast
qed

lemma firstHost_v4:
  assumes wf: "wellformed c" and v4: "fam (caddr c) = V4" and l: "plen c < 32"
  shows "firstHost c = Some (Addr V4 (num (network c) + 1))"
proof -
  have h: "1 \<le> hostbits c" using v4 l by (simp add: hostbits_def)
  have nf: "fam (network c) = V4" using v4 by (simp add: network_def)
  have "num (network c) \<le> num (caddr c)" by (rule network_le)
  also have "\<dots> < 2 ^ 32" using wf v4 by (simp add: wellformed_def)
  finally have lt: "num (network c) < 2 ^ 32" .
  have t4: "To4 (network c) = Some (num (network c))" by (simp add: To4_def nf)
  have "even (octet 3 (num (network c)))"
    using network_even [OF h] by (simp add: octet_def dvd_mod_iff)
  moreover have "octet 3 (num (network c)) < 256" by (simp add: octet_def)
  ultimately have "octet 3 (num (network c)) \<noteq> 255" by auto
  with \<open>octet 3 (num (network c)) < 256\<close>
  have m: "(octet 3 (num (network c)) + 1) mod 256 = octet 3 (num (network c)) + 1" by simp
  have ip: "IPv4 (octet 0 (num (network c))) (octet 1 (num (network c)))
      (octet 2 (num (network c))) ((octet 3 (num (network c)) + 1) mod 256) =
      Addr V4 (num (network c) + 1)"
    unfolding m IPv4_def using octets_recompose [OF lt] by simp
  have nm: "networkNumberAndMask c = (V4, num (network c), plen c)"
    by (simp add: networkNumberAndMask_def t4 v4)
  have cont: "IPNet_Contains c (Addr V4 (num (network c) + 1))"
    using network_succ_div [OF h] v4
    by (simp add: IPNet_Contains_def nm To4_def hostbits_def network_def)
  have "firstHost c =
      (let ip = IPv4 (octet 0 (num (network c))) (octet 1 (num (network c)))
          (octet 2 (num (network c))) ((octet 3 (num (network c)) + 1) mod 256)
       in if IPNet_Contains c ip then Some ip else None)"
    by (simp only: firstHost_def wf t4 not_True_eq_False if_False option.case)
  also have "\<dots> = Some (Addr V4 (num (network c) + 1))"
    unfolding Let_def ip using cont by (simp only: if_True)
  finally show ?thesis .
qed

lemma firstHost_is_v4: "firstHost c = Some g \<Longrightarrow> fam g = V4"
  by (auto simp: firstHost_def IPv4_def Let_def split: if_splits option.splits)

lemma firstHost_contained: "firstHost c = Some g \<Longrightarrow> IPNet_Contains c g"
  by (auto simp: firstHost_def Let_def split: if_splits option.splits)

lemma firstHost_None_hostbits:
  assumes "wellformed c" and "firstHost c = None" and "1 \<le> hostbits c"
  shows "fam (caddr c) = V6"
proof (rule ccontr)
  assume "fam (caddr c) \<noteq> V6"
  then have v4: "fam (caddr c) = V4" by (cases "fam (caddr c)") simp_all
  with assms(3) have "plen c < 32" by (simp add: hostbits_def)
  from firstHost_v4 [OF assms(1) v4 this] assms(2) show False by simp
qed

lemma newAllocator_v6:
  assumes "wellformed c" and "fam (caddr c) = V6"
  shows "newAllocator c = Inr \<lparr>ipm = {network c}, prefix = c\<rparr>"
proof (cases "firstHost c")
  case None
  with assms show ?thesis by (simp add: newAllocator_def NewPrefix_def)
next
  case (Some g)
  then have "fam g = V4" by (rule firstHost_is_v4)
  with assms(2) have "\<not> Contains c g" by (simp add: Contains_def)
  with assms Some show ?thesis
    by (simp add: newAllocator_def NewPrefix_def AcquireSpecificIP_def)
qed

lemma newAllocator_no_gateway:
  assumes "wellformed c" and "firstHost c = None"
  shows "newAllocator c =
     Inr \<lparr>ipm = (if fam (caddr c) = V4 then {network c, broadcast c} else {network c}),
          prefix = c\<rparr>"
  using assms by (simp add: newAllocator_def NewPrefix_def)

lemma newAllocator_v4:
  assumes wf: "wellformed c" and v4: "fam (caddr c) = V4" and l: "plen c < 32"
  shows "newAllocator c =
     Inr \<lparr>ipm = {Addr V4 (num (network c) + 1), network c, broadcast c}, prefix = c\<rparr>"
proof -
  have h: "1 \<le> hostbits c" using v4 l by (simp add: hostbits_def)
  have c: "Contains c (Addr V4 (num (network c) + 1))"
    using network_succ_div [OF h] v4 by (simp add: Contains_def)
  have "insert (Addr V4 (num (network c) + 1)) {network c, broadcast c} =
      {network c, broadcast c}" if "Addr V4 (num (network c) + 1) \<in> {network c, broadcast c}"
    using that by auto
  then show ?thesis
    using firstHost_v4 [OF wf v4 l] wf v4 c
    by (auto simp: newAllocator_def NewPrefix_def AcquireSpecificIP_def)
qed

lemma first_next_v6:
  assumes "1 \<le> hostbits c" and "fam (caddr c) = V6"
  shows "alloc_next \<lparr>ipm = {network c}, prefix = c\<rparr> =
     Inr (Addr V6 (num (network c) + 1),
          \<lparr>ipm = {Addr V6 (num (network c) + 1), network c}, prefix = c\<rparr>)"
proof -
  have "(2::nat) ^ 1 \<le> 2 ^ hostbits c" using assms(1) by (intro power_increasing) simp_all
  then have one: "(1::nat) < 2 ^ hostbits c" by simp
  have n0: "addrs c ! 0 = network c"
    using nth_addrs [of 0 c] assms(2) by (simp add: network_def)
  have n1: "addrs c ! 1 = Addr V6 (num (network c) + 1)"
    using nth_addrs [OF one] assms(2) by simp
  have "find (\<lambda>a. a \<notin> {network c}) (addrs c) = Some (Addr V6 (num (network c) + 1))"
    unfolding find_Some_iff
  proof (intro exI [of _ 1] conjI allI impI)
    show "1 < length (addrs c)" using one by (simp add: length_addrs)
    show "addrs c ! 1 \<notin> {network c}" unfolding n1 by (simp add: network_def)
    show "Addr V6 (num (network c) + 1) = addrs c ! 1" by (simp only: n1)
    fix j :: nat assume "j < 1"
    then have "j = 0" by simp
    then show "\<not> addrs c ! j \<notin> {network c}" using n0 by simp
  qed
  then show ?thesis by (simp add: alloc_next_def AcquireIP_def)
qed

lemma exhausted_stays:
  "alloc_next a = Inl e \<Longrightarrow> successes (fst (nexts n a)) = []"
  by (induction n) (auto split: prod.splits)

lemma Contains_single:
  assumes "hostbits c = 0" and "Contains c g"
  shows "g = network c"
  using assms by (cases g) (simp add: Contains_def network_def)

lemma newAllocator_v4_32:
  assumes wf: "wellformed c" and v4: "fam (caddr c) = V4" and l: "\<not> plen c < 32"
  shows "newAllocator c = Inr \<lparr>ipm = {network c, broadcast c}, prefix = c\<rparr>"
proof -
  from wf v4 l have "plen c = 32" by (simp add: wellformed_def)
  with v4 have h: "hostbits c = 0" by (simp add: hostbits_def)
  show ?thesis
  proof (cases "firstHost c")
    case None
    with wf v4 show ?thesis by (simp add: newAllocator_def NewPrefix_def)
  next
    case (Some g)
    have "AcquireSpecificIP c {network c, broadcast c} g \<noteq> Inr ips" for ips
      using Contains_single [OF h, of g] by (auto simp: AcquireSpecificIP_def)
    then obtain e where "AcquireSpecificIP c {network c, broadcast c} g = Inl e"
      by (cases "AcquireSpecificIP c {network c, broadcast c} g") auto
    with wf v4 Some show ?thesis by (simp add: newAllocator_def NewPrefix_def)
  qed
qed

lemma newAllocator_other:
  assumes wf: "wellformed c" and o: "\<not> (fam (caddr c) = V4 \<and> plen c < 32)"
  shows "newAllocator c =
     Inr \<lparr>ipm = (if fam (caddr c) = V4 then {network c, broadcast c} else {network c}),
          prefix = c\<rparr>"
proof (cases "fam (caddr c)")
  case V4
  with o have "\<not> plen c < 32" by simp
  from newAllocator_v4_32 [OF wf V4 this] V4 show ?thesis by simp
next
  case V6
  from newAllocator_v6 [OF wf V6] V6 show ?thesis by simp
qed

lemma first_host_refused_v6:
  assumes "fam (caddr c) = V6" and "firstHost c = Some g"
  shows "fam g = V4" and "AcquireSpecificIP c ips g = Inl NotInPrefix"
proof -
  show g: "fam g = V4" by (rule firstHost_is_v4 [OF assms(2)])
  with assms(1) show "AcquireSpecificIP c ips g = Inl NotInPrefix"
    by (simp add: AcquireSpecificIP_def Contains_def)
qed

lemma byte_succ_differs: "(x::nat) < 256 \<Longrightarrow> (x + 1) mod 256 \<noteq> x"
proof (cases "x = 255")
  case True
  then show ?thesis by simp
next
  case False
  assume "x < 256"
  with False have "x + 1 < 256" by simp
  then have "(x + 1) mod 256 = x + 1" by (rule mod_less)
  then show ?thesis by simp
qed

lemma firstHost_v4_32:
  assumes wf: "wellformed c" and v4: "fam (caddr c) = V4" and l: "plen c = 32"
  shows "firstHost c = None"
proof -
  define n where "n = num (caddr c)"
  from v4 l have h: "hostbits c = 0" by (simp add: hostbits_def)
  have net: "network c = Addr V4 n" using h v4 by (simp add: network_def n_def)
  from wf v4 have lt: "n < 2 ^ 32" by (simp add: wellformed_def n_def)
  have t4: "To4 (network c) = Some n" by (simp add: net To4_def)
  define d where "d = (octet 3 n + 1) mod 256"
  define hi where "hi = (octet 0 n * 256 + octet 1 n) * 256 + octet 2 n"
  have o3: "octet 3 n < 256" by (simp add: octet_def)
  have dne: "d \<noteq> octet 3 n" unfolding d_def by (rule byte_succ_differs [OF o3])
  have rec: "hi * 256 + octet 3 n = n" unfolding hi_def by (rule octets_recompose [OF lt])
  have ip: "IPv4 (octet 0 n) (octet 1 n) (octet 2 n) ((octet 3 n + 1) mod 256) =
      Addr V4 (hi * 256 + d)"
    by (simp only: IPv4_def hi_def d_def)
  have ne: "n \<noteq> hi * 256 + d"
  proof
    assume "n = hi * 256 + d"
    with rec have "hi * 256 + octet 3 n = hi * 256 + d" by simp
    with dne show False by simp
  qed
  have nm: "networkNumberAndMask c = (V4, n, 32)"
    by (simp add: networkNumberAndMask_def t4 v4 l)
  have nc: "\<not> IPNet_Contains c (Addr V4 (hi * 256 + d))"
    using ne by (simp add: IPNet_Contains_def nm To4_def)
  have "firstHost c =
      (let ip = IPv4 (octet 0 n) (octet 1 n) (octet 2 n) ((octet 3 n + 1) mod 256)
       in if IPNet_Contains c ip then Some ip else None)"
    by (simp only: firstHost_def wf t4 not_True_eq_False if_False option.case)
  also have "\<dots> = None" unfolding Let_def ip using nc by (simp only: if_False)
  finally show ?thesis .
qed

subsection \<open>Pool creation\<close>

lemma new30:
  "newAllocator (Cidr (IPv4 10 42 0 0) 30) =
     Inr \<lparr>ipm = {IPv4 10 42 0 1, IPv4 10 42 0 0, IPv4 10 42 0 3},
          prefix = Cidr (IPv4 10 42 0 0) 30\<rparr>"
  by (simp add: pool_eval)

lemma next30:
  "alloc_next \<lparr>ipm = {IPv4 10 42 0 1, IPv4 10 42 0 0, IPv4 10 42 0 3},
                prefix = Cidr (IPv4 10 42 0 0) 30\<rparr> =
     Inr (IPv4 10 42 0 2,
          \<lparr>ipm = {IPv4 10 42 0 2, IPv4 10 42 0 1, IPv4 10 42 0 0, IPv4 10 42 0 3},
           prefix = Cidr (IPv4 10 42 0 0) 30\<rparr>)"
  by code_simp

lemma next30_exhausted:
  "alloc_next \<lparr>ipm = {IPv4 10 42 0 2, IPv4 10 42 0 1, IPv4 10 42 0 0, IPv4 10 42 0 3},
                prefix = Cidr (IPv4 10 42 0 0) 30\<rparr> = Inl PoolExhaustedError"
  by code_simp

text \<open>
  C4, as the code has it. Creation fails with the configuration error on a malformed
  prefix. From a valid IPv4 CIDR shorter than /32 it marks the network address, the
  broadcast address and the first host address (network + 1), and nothing else. From
  every other valid CIDR it marks the network address and, for IPv4, the broadcast
  address, and nothing else: no first host address is reserved. The pool of
  10.42.0.0/30 gives 10.42.0.2 to the first \<^verbatim>\<open>next\<close>, the pool-exhausted error to the
  second, and no address to any later call.
\<close>

theorem C4_pool_creation:
  "(\<not> wellformed c \<longrightarrow> newAllocator c = Inl ConfigError) \<and>
   (wellformed c \<and> fam (caddr c) = V4 \<and> plen c < 32 \<longrightarrow>
      newAllocator c =
        Inr \<lparr>ipm = {Addr V4 (num (network c) + 1), network c, broadcast c}, prefix = c\<rparr>) \<and>
   (wellformed c \<and> \<not> (fam (caddr c) = V4 \<and> plen c < 32) \<longrightarrow>
      newAllocator c =
        Inr \<lparr>ipm = (if fam (caddr c) = V4 then {network c, broadcast c} else {network c}),
             prefix = c\<rparr>) \<and>
   (wellformed c \<longrightarrow>
      (\<exists>a. newAllocator c = Inr a \<and> prefix a = c \<and> network c \<in> ipm a \<and>
           (fam (caddr c) = V4 \<longrightarrow> broadcast c \<in> ipm a))) \<and>
   (\<exists>a a1. newAllocator (Cidr (IPv4 10 42 0 0) 30) = Inr a \<and>
      alloc_next a = Inr (IPv4 10 42 0 2, a1) \<and>
      alloc_next a1 = Inl PoolExhaustedError \<and>
      (\<forall>n. successes (fst (nexts n a1)) = []))"
proof (intro conjI impI)
  assume "\<not> wellformed c"
  then show "newAllocator c = Inl ConfigError" by (simp add: newAllocator_Inl)
next
  assume "wellformed c \<and> fam (caddr c) = V4 \<and> plen c < 32"
  then show "newAllocator c =
      Inr \<lparr>ipm = {Addr V4 (num (network c) + 1), network c, broadcast c}, prefix = c\<rparr>"
    by (simp add: newAllocator_v4)
next
  assume "wellformed c \<and> \<not> (fam (caddr c) = V4 \<and> plen c < 32)"
  then have wf: "wellformed c" and o: "\<not> (fam (caddr c) = V4 \<and> plen c < 32)" by simp_all
  show "newAllocator c =
      Inr \<lparr>ipm = (if fam (caddr c) = V4 then {network c, broadcast c} else {network c}),
           prefix = c\<rparr>"
    by (rule newAllocator_other [OF wf o])
next
  assume wf: "wellformed c"
  obtain a where a: "newAllocator c = Inr a"
  proof (cases "newAllocator c")
    case (Inl e)
    with wf show ?thesis by (simp add: newAllocator_Inl)
  next
    case (Inr a)
    then show ?thesis by (rule that)
  qed
  show "\<exists>a. newAllocator c = Inr a \<and> prefix a = c \<and> network c \<in> ipm a \<and>
           (fam (caddr c) = V4 \<longrightarrow> broadcast c \<in> ipm a)"
    using a newAllocator_Inr(2) [OF a] newAllocator_Inr(3) [OF a] newAllocator_Inr(4) [OF a]
    by blast
next
  show "\<exists>a a1. newAllocator (Cidr (IPv4 10 42 0 0) 30) = Inr a \<and>
      alloc_next a = Inr (IPv4 10 42 0 2, a1) \<and>
      alloc_next a1 = Inl PoolExhaustedError \<and>
      (\<forall>n. successes (fst (nexts n a1)) = [])"
    using new30 next30 exhausted_stays [OF next30_exhausted] next30_exhausted by blast
qed

theorem C4_pool_creation_witness:
  "\<not> wellformed (Cidr (IPv4 10 42 0 0) 33) \<and>
   newAllocator (Cidr (IPv4 10 42 0 0) 33) = Inl ConfigError \<and>
   wellformed (Cidr (IPv4 10 42 0 0) 30) \<and>
   fam (caddr (Cidr (IPv4 10 42 0 0) 30)) = V4 \<and> plen (Cidr (IPv4 10 42 0 0) 30) < 32 \<and>
   newAllocator (Cidr (IPv4 10 42 0 0) 30) =
     Inr \<lparr>ipm = {IPv4 10 42 0 1, IPv4 10 42 0 0, IPv4 10 42 0 3},
          prefix = Cidr (IPv4 10 42 0 0) 30\<rparr> \<and>
   wellformed (Cidr (IPv4 10 42 0 9) 32) \<and>
   newAllocator (Cidr (IPv4 10 42 0 9) 32) =
     Inr \<lparr>ipm = {IPv4 10 42 0 9}, prefix = Cidr (IPv4 10 42 0 9) 32\<rparr> \<and>
   wellformed (Cidr (Addr V6 (64768 * 2 ^ 112)) 64) \<and>
   newAllocator (Cidr (Addr V6 (64768 * 2 ^ 112)) 64) =
     Inr \<lparr>ipm = {Addr V6 (64768 * 2 ^ 112)}, prefix = Cidr (Addr V6 (64768 * 2 ^ 112)) 64\<rparr>"
proof -
  let ?d = "Cidr (IPv4 10 42 0 9) 32"
  let ?e = "Cidr (Addr V6 (64768 * 2 ^ 112)) 64"
  have m: "\<not> wellformed (Cidr (IPv4 10 42 0 0) 33)" by (simp add: wellformed_def IPv4_def)
  have w: "wellformed (Cidr (IPv4 10 42 0 0) 30)" by (simp add: wellformed_def IPv4_def)
  have f: "fam (caddr (Cidr (IPv4 10 42 0 0) 30)) = V4" by (simp add: IPv4_def)
  have e: "{Addr V4 (num (network (Cidr (IPv4 10 42 0 0) 30)) + 1),
            network (Cidr (IPv4 10 42 0 0) 30), broadcast (Cidr (IPv4 10 42 0 0) 30)} =
           {IPv4 10 42 0 1, IPv4 10 42 0 0, IPv4 10 42 0 3}"
    by (simp add: network_def broadcast_def hostbits_def IPv4_def)
  have wd: "wellformed ?d" by (simp add: wellformed_def IPv4_def)
  have fd: "fam (caddr ?d) = V4" by (simp add: IPv4_def)
  have nd: "network ?d = IPv4 10 42 0 9" by (simp add: network_def hostbits_def IPv4_def)
  have bd: "broadcast ?d = IPv4 10 42 0 9"
    by (simp add: broadcast_def network_def hostbits_def IPv4_def)
  have we: "wellformed ?e" by (simp add: wellformed_def)
  have ne: "network ?e = Addr V6 (64768 * 2 ^ 112)" by (simp add: network_def hostbits_def)
  from C4_pool_creation [of "Cidr (IPv4 10 42 0 0) 33"]
    C4_pool_creation [of "Cidr (IPv4 10 42 0 0) 30"]
    C4_pool_creation [of ?d] C4_pool_creation [of ?e] m w f e wd fd nd bd we ne
  show ?thesis by simp
qed

text \<open>
  The claim C4 as stated fails for a valid CIDR that is not IPv4: creating the pool of
  fd00::/126 marks the network address only, and the first \<^verbatim>\<open>next\<close> returns the first
  host address fd00::1.
\<close>

theorem C4_counterexample:
  "wellformed (Cidr (Addr V6 (64768 * 2 ^ 112)) 126) \<and>
   newAllocator (Cidr (Addr V6 (64768 * 2 ^ 112)) 126) =
     Inr \<lparr>ipm = {Addr V6 (64768 * 2 ^ 112)}, prefix = Cidr (Addr V6 (64768 * 2 ^ 112)) 126\<rparr> \<and>
   Addr V6 (64768 * 2 ^ 112 + 1) \<notin> {Addr V6 (64768 * 2 ^ 112)} \<and>
   alloc_next \<lparr>ipm = {Addr V6 (64768 * 2 ^ 112)},
                prefix = Cidr (Addr V6 (64768 * 2 ^ 112)) 126\<rparr> =
     Inr (Addr V6 (64768 * 2 ^ 112 + 1),
          \<lparr>ipm = {Addr V6 (64768 * 2 ^ 112 + 1), Addr V6 (64768 * 2 ^ 112)},
           prefix = Cidr (Addr V6 (64768 * 2 ^ 112)) 126\<rparr>)"
  by code_simp

text \<open>
  C9, as the code has it. Where the network of the CIDR is not IPv4 by the test of the
  code (\<^verbatim>\<open>To4\<close> gives nil), or the address computed from it falls outside the prefix
  (as for every IPv4 /32), \<^verbatim>\<open>firstHost\<close> returns the empty string and pool creation
  skips the reservation. For an IPv6 CIDR in the IPv4-mapped range \<^verbatim>\<open>firstHost\<close> may
  return the text of an IPv4 address; the reservation is then attempted and the library
  refuses it as outside the prefix. Either way the pool of an IPv6 CIDR holds the network
  address and nothing else, and where the prefix has more than one address the first
  \<^verbatim>\<open>next\<close> returns the first host address (network + 1).
\<close>

theorem C9_no_gateway_without_ipv4:
  assumes "wellformed c"
  shows
  "(To4 (network c) = None \<longrightarrow> firstHost c = None) \<and>
   (To4 (network c) = Some v \<and>
    \<not> IPNet_Contains c (IPv4 (octet 0 v) (octet 1 v) (octet 2 v) ((octet 3 v + 1) mod 256)) \<longrightarrow>
      firstHost c = None) \<and>
   (fam (caddr c) = V4 \<and> plen c = 32 \<longrightarrow> firstHost c = None) \<and>
   (firstHost c = None \<longrightarrow>
      newAllocator c =
        Inr \<lparr>ipm = (if fam (caddr c) = V4 then {network c, broadcast c} else {network c}),
             prefix = c\<rparr> \<and>
      (1 \<le> hostbits c \<longrightarrow>
         alloc_next \<lparr>ipm = {network c}, prefix = c\<rparr> =
           Inr (Addr V6 (num (network c) + 1),
                \<lparr>ipm = {Addr V6 (num (network c) + 1), network c}, prefix = c\<rparr>) \<and>
         newAllocator c = Inr \<lparr>ipm = {network c}, prefix = c\<rparr>)) \<and>
   (fam (caddr c) = V6 \<longrightarrow>
      newAllocator c = Inr \<lparr>ipm = {network c}, prefix = c\<rparr> \<and>
      (\<forall>g. firstHost c = Some g \<longrightarrow>
         fam g = V4 \<and> AcquireSpecificIP c {network c} g = Inl NotInPrefix) \<and>
      (1 \<le> hostbits c \<longrightarrow>
         alloc_next \<lparr>ipm = {network c}, prefix = c\<rparr> =
           Inr (Addr V6 (num (network c) + 1),
                \<lparr>ipm = {Addr V6 (num (network c) + 1), network c}, prefix = c\<rparr>)))"
proof (intro conjI impI allI)
  assume "To4 (network c) = None"
  then show "firstHost c = None" by (simp add: firstHost_def)
next
  assume "To4 (network c) = Some v \<and>
    \<not> IPNet_Contains c (IPv4 (octet 0 v) (octet 1 v) (octet 2 v) ((octet 3 v + 1) mod 256))"
  then show "firstHost c = None" by (simp add: firstHost_def Let_def)
next
  assume "fam (caddr c) = V4 \<and> plen c = 32"
  then show "firstHost c = None" using firstHost_v4_32 [OF assms] by simp
next
  assume "firstHost c = None"
  then show "newAllocator c =
      Inr \<lparr>ipm = (if fam (caddr c) = V4 then {network c, broadcast c} else {network c}),
           prefix = c\<rparr>"
    by (rule newAllocator_no_gateway [OF assms])
next
  assume n: "firstHost c = None" and h: "1 \<le> hostbits c"
  have v6: "fam (caddr c) = V6" by (rule firstHost_None_hostbits [OF assms n h])
  show "alloc_next \<lparr>ipm = {network c}, prefix = c\<rparr> =
      Inr (Addr V6 (num (network c) + 1),
           \<lparr>ipm = {Addr V6 (num (network c) + 1), network c}, prefix = c\<rparr>)"
    by (rule first_next_v6 [OF h v6])
  show "newAllocator c = Inr \<lparr>ipm = {network c}, prefix = c\<rparr>"
    by (rule newAllocator_v6 [OF assms v6])
next
  assume "fam (caddr c) = V6"
  then show "newAllocator c = Inr \<lparr>ipm = {network c}, prefix = c\<rparr>"
    by (rule newAllocator_v6 [OF assms])
next
  fix g assume v6: "fam (caddr c) = V6" and g: "firstHost c = Some g"
  show "fam g = V4" by (rule first_host_refused_v6(1) [OF v6 g])
  show "AcquireSpecificIP c {network c} g = Inl NotInPrefix"
    by (rule first_host_refused_v6(2) [OF v6 g])
next
  assume v6: "fam (caddr c) = V6" and h: "1 \<le> hostbits c"
  show "alloc_next \<lparr>ipm = {network c}, prefix = c\<rparr> =
      Inr (Addr V6 (num (network c) + 1),
           \<lparr>ipm = {Addr V6 (num (network c) + 1), network c}, prefix = c\<rparr>)"
    by (rule first_next_v6 [OF h v6])
qed

theorem C9_no_gateway_without_ipv4_witness:
  "wellformed (Cidr (Addr V6 (64768 * 2 ^ 112)) 64) \<and>
   To4 (network (Cidr (Addr V6 (64768 * 2 ^ 112)) 64)) = None \<and>
   firstHost (Cidr (Addr V6 (64768 * 2 ^ 112)) 64) = None \<and>
   1 \<le> hostbits (Cidr (Addr V6 (64768 * 2 ^ 112)) 64) \<and>
   newAllocator (Cidr (Addr V6 (64768 * 2 ^ 112)) 64) =
     Inr \<lparr>ipm = {Addr V6 (64768 * 2 ^ 112)}, prefix = Cidr (Addr V6 (64768 * 2 ^ 112)) 64\<rparr> \<and>
   alloc_next \<lparr>ipm = {Addr V6 (64768 * 2 ^ 112)},
                prefix = Cidr (Addr V6 (64768 * 2 ^ 112)) 64\<rparr> =
     Inr (Addr V6 (64768 * 2 ^ 112 + 1),
          \<lparr>ipm = {Addr V6 (64768 * 2 ^ 112 + 1), Addr V6 (64768 * 2 ^ 112)},
           prefix = Cidr (Addr V6 (64768 * 2 ^ 112)) 64\<rparr>) \<and>
   wellformed (Cidr (IPv4 10 42 0 255) 32) \<and>
   To4 (network (Cidr (IPv4 10 42 0 255) 32)) = Some 170524927 \<and>
   \<not> IPNet_Contains (Cidr (IPv4 10 42 0 255) 32) (IPv4 10 42 0 0) \<and>
   firstHost (Cidr (IPv4 10 42 0 255) 32) = None \<and>
   newAllocator (Cidr (IPv4 10 42 0 255) 32) =
     Inr \<lparr>ipm = {IPv4 10 42 0 255}, prefix = Cidr (IPv4 10 42 0 255) 32\<rparr> \<and>
   wellformed (Cidr (Addr V6 (65535 * 2 ^ 32 + 167772160)) 120) \<and>
   firstHost (Cidr (Addr V6 (65535 * 2 ^ 32 + 167772160)) 120) = Some (IPv4 10 0 0 1) \<and>
   AcquireSpecificIP (Cidr (Addr V6 (65535 * 2 ^ 32 + 167772160)) 120)
     {Addr V6 (65535 * 2 ^ 32 + 167772160)} (IPv4 10 0 0 1) = Inl NotInPrefix \<and>
   newAllocator (Cidr (Addr V6 (65535 * 2 ^ 32 + 167772160)) 120) =
     Inr \<lparr>ipm = {Addr V6 (65535 * 2 ^ 32 + 167772160)},
          prefix = Cidr (Addr V6 (65535 * 2 ^ 32 + 167772160)) 120\<rparr> \<and>
   alloc_next \<lparr>ipm = {Addr V6 (65535 * 2 ^ 32 + 167772160)},
                prefix = Cidr (Addr V6 (65535 * 2 ^ 32 + 167772160)) 120\<rparr> =
     Inr (Addr V6 (65535 * 2 ^ 32 + 167772160 + 1),
          \<lparr>ipm = {Addr V6 (65535 * 2 ^ 32 + 167772160 + 1),
                  Addr V6 (65535 * 2 ^ 32 + 167772160)},
           prefix = Cidr (Addr V6 (65535 * 2 ^ 32 + 167772160)) 120\<rparr>)"
proof -
  let ?c = "Cidr (Addr V6 (64768 * 2 ^ 112)) 64"
  let ?d = "Cidr (IPv4 10 42 0 255) 32"
  let ?m = "Cidr (Addr V6 (65535 * 2 ^ 32 + 167772160)) 120"
  have w: "wellformed ?c" by (simp add: wellformed_def)
  have n: "network ?c = Addr V6 (64768 * 2 ^ 112)" by (simp add: network_def hostbits_def)
  have t: "To4 (network ?c) = None" unfolding n by (simp add: To4_def)
  have h: "1 \<le> hostbits ?c" by (simp add: hostbits_def)
  have w': "wellformed ?d" by (simp add: wellformed_def IPv4_def)
  have n': "network ?d = IPv4 10 42 0 255" by (simp add: network_def hostbits_def IPv4_def)
  have b': "broadcast ?d = IPv4 10 42 0 255"
    by (simp add: broadcast_def network_def hostbits_def IPv4_def)
  have t': "To4 (network ?d) = Some 170524927" unfolding n' by (simp add: To4_def IPv4_def)
  have o: "IPv4 (octet 0 170524927) (octet 1 170524927) (octet 2 170524927)
      ((octet 3 170524927 + 1) mod 256) = IPv4 10 42 0 0"
    by (simp add: octet_def IPv4_def)
  have nc: "\<not> IPNet_Contains ?d (IPv4 10 42 0 0)"
    by code_simp
  have wm: "wellformed ?m" by (simp add: wellformed_def)
  have nm: "network ?m = Addr V6 (65535 * 2 ^ 32 + 167772160)"
    by (simp add: network_def hostbits_def)
  have hm: "1 \<le> hostbits ?m" by (simp add: hostbits_def)
  have fm: "firstHost ?m = Some (IPv4 10 0 0 1)" by code_simp
  from C9_no_gateway_without_ipv4 [OF w, of 0] C9_no_gateway_without_ipv4 [OF w', of 170524927]
    C9_no_gateway_without_ipv4 [OF wm, of 0]
    w t h n w' n' b' t' o nc wm nm hm fm
  show ?thesis by (simp add: IPv4_def)
qed

text \<open>
  The claim C9 as stated fails for an IPv6 CIDR in the IPv4-mapped range: for
  ::ffff:10.0.0.0/120 the network is not nil under \<^verbatim>\<open>To4\<close>, \<^verbatim>\<open>firstHost\<close> returns the text
  10.0.0.1 instead of the empty string, and the reservation is attempted (and refused).
\<close>

theorem C9_counterexample:
  "wellformed (Cidr (Addr V6 (65535 * 2 ^ 32 + 167772160)) 120) \<and>
   fam (caddr (Cidr (Addr V6 (65535 * 2 ^ 32 + 167772160)) 120)) = V6 \<and>
   To4 (network (Cidr (Addr V6 (65535 * 2 ^ 32 + 167772160)) 120)) = Some 167772160 \<and>
   firstHost (Cidr (Addr V6 (65535 * 2 ^ 32 + 167772160)) 120) = Some (IPv4 10 0 0 1) \<and>
   firstHost (Cidr (Addr V6 (65535 * 2 ^ 32 + 167772160)) 120) \<noteq> None \<and>
   AcquireSpecificIP (Cidr (Addr V6 (65535 * 2 ^ 32 + 167772160)) 120)
     {Addr V6 (65535 * 2 ^ 32 + 167772160)} (IPv4 10 0 0 1) = Inl NotInPrefix"
  by code_simp

section \<open>Properties of the bootable-interface classifier\<close>

lemma HasPrefix_iff: "strings_HasPrefix s p = (\<exists>v. s = p @ v)"
  by (induction s p rule: strings_HasPrefix.induct) auto

lemma Contains_iff: "strings_Contains s sub = (\<exists>u v. s = u @ sub @ v)"
proof (induction s)
  case Nil
  then show ?case by auto
next
  case (Cons c s)
  show ?case
  proof
    assume "strings_Contains (c # s) sub"
    then consider "strings_HasPrefix (c # s) sub" | "strings_Contains s sub" by auto
    then show "\<exists>u v. c # s = u @ sub @ v"
    proof cases
      case 1
      then obtain v where "c # s = sub @ v" by (auto simp: HasPrefix_iff)
      then have "c # s = [] @ sub @ v" by simp
      then show ?thesis by blast
    next
      case 2
      with Cons obtain u v where "s = u @ sub @ v" by auto
      then have "c # s = (c # u) @ sub @ v" by simp
      then show ?thesis by blast
    qed
  next
    assume "\<exists>u v. c # s = u @ sub @ v"
    then obtain u v where e: "c # s = u @ sub @ v" by blast
    show "strings_Contains (c # s) sub"
    proof (cases u)
      case Nil
      with e have "strings_HasPrefix (c # s) sub" by (auto simp: HasPrefix_iff)
      then show ?thesis by simp
    next
      case (Cons d u')
      with e have "s = u' @ sub @ v" by simp
      with Cons.IH have "strings_Contains s sub" by blast
      then show ?thesis by simp
    qed
  qed
qed

lemma ToLower_dhcp: "strings_ToLower ''dhcp'' = ''dhcp''"
  by (simp add: strings_ToLower_def toLower_char_def)

lemma path_hint_iff:
  "path_hint p =
     (strings_Contains (strings_ToLower p) ''pxe'' \<or> strings_Contains (strings_ToLower p) ''ipv4'' \<or>
      strings_Contains (strings_ToLower p) ''ipv6'' \<or> strings_Contains (strings_ToLower p) ''mac('')"
  unfolding path_hint_def Contains_iff by blast

lemma dhcp_origin_iff:
  "dhcp_origin n = list_ex (\<lambda>a. strings_EqualFold (Origin a) ''dhcp'') (IPv4Addresses n)"
  by (simp add: dhcp_origin_def list_ex_iff strings_EqualFold_def ToLower_dhcp)

lemma enabled_cases: "(e = None \<or> e = Some True) = (e \<noteq> Some False)"
  by (cases e) auto

lemma isBootable_policy: "isBootable n = bootable_policy n"
  by (simp add: isBootable_def bootable_policy_def path_hint_iff dhcp_origin_iff Let_def
      enabled_cases)

text \<open>
  C6. The classifier applies its rules in order, the first match deciding: a path hint
  (one of pxe, ipv4, ipv6, mac( in the UEFI device path, letter case ignored) makes the
  interface bootable whatever the enabled flag and the addresses are; otherwise an IPv4
  address of origin dhcp (letter case ignored) does; otherwise the interface is bootable
  exactly when it has a MAC and its enabled flag is true or absent. An interface whose
  path contains Mac(, with no address and the enabled flag false, is bootable.
\<close>

theorem C6_bootable_policy:
  "isBootable n = bootable_policy n \<and>
   (path_hint (UefiDevicePath n) \<longrightarrow> isBootable n) \<and>
   (\<not> path_hint (UefiDevicePath n) \<and> dhcp_origin n \<longrightarrow> isBootable n) \<and>
   (\<not> path_hint (UefiDevicePath n) \<and> \<not> dhcp_origin n \<longrightarrow>
      isBootable n = (MACAddress n \<noteq> [] \<and> InterfaceEnabled n \<noteq> Some False)) \<and>
   (strings_ToLower p = u @ ''mac('' @ v \<longrightarrow>
      isBootable (n\<lparr>UefiDevicePath := p, IPv4Addresses := [], InterfaceEnabled := Some False\<rparr>))"
proof (intro conjI impI)
  show "isBootable n = bootable_policy n" by (rule isBootable_policy)
  show "isBootable n" if "path_hint (UefiDevicePath n)"
    using that by (simp add: isBootable_policy bootable_policy_def)
  show "isBootable n" if "\<not> path_hint (UefiDevicePath n) \<and> dhcp_origin n"
    using that by (simp add: isBootable_policy bootable_policy_def)
  show "isBootable n = (MACAddress n \<noteq> [] \<and> InterfaceEnabled n \<noteq> Some False)"
    if "\<not> path_hint (UefiDevicePath n) \<and> \<not> dhcp_origin n"
    using that by (simp add: isBootable_policy bootable_policy_def)
  show "isBootable (n\<lparr>UefiDevicePath := p, IPv4Addresses := [], InterfaceEnabled := Some False\<rparr>)"
    if "strings_ToLower p = u @ ''mac('' @ v"
  proof -
    from that have "path_hint p" unfolding path_hint_def by blast
    then show ?thesis by (simp add: isBootable_policy bootable_policy_def)
  qed
qed

theorem C6_bootable_policy_witness:
  "strings_ToLower ''PciRoot(0x0)/Pci(0x1C,0x0)/Pci(0x0,0x0)/MAC(B42E99A1B2C3,0x1)'' =
     ''pciroot(0x0)/pci(0x1c,0x0)/pci(0x0,0x0)/'' @ ''mac('' @ ''b42e99a1b2c3,0x1)'' \<and>
   path_hint ''PciRoot(0x0)/Pci(0x1C,0x0)/Pci(0x0,0x0)/MAC(B42E99A1B2C3,0x1)'' \<and>
   isBootable \<lparr>ID = ''1'', Name = ''eth0'', InterfaceEnabled = Some False,
               MACAddress = [],
               UefiDevicePath = ''PciRoot(0x0)/Pci(0x1C,0x0)/Pci(0x0,0x0)/MAC(B42E99A1B2C3,0x1)'',
               IPv4Addresses = []\<rparr> \<and>
   \<not> path_hint ''eth0'' \<and>
   \<not> isBootable \<lparr>ID = ''2'', Name = ''eth1'', InterfaceEnabled = Some False,
               MACAddress = ''b4:2e:99:a1:b2:c4'', UefiDevicePath = ''eth0'',
               IPv4Addresses = [\<lparr>Address = ''10.0.0.9'', Origin = ''Static''\<rparr>]\<rparr> \<and>
   isBootable \<lparr>ID = ''2'', Name = ''eth1'', InterfaceEnabled = Some False,
               MACAddress = ''b4:2e:99:a1:b2:c4'', UefiDevicePath = ''eth0'',
               IPv4Addresses = [\<lparr>Address = ''10.0.0.9'', Origin = ''DHCP''\<rparr>]\<rparr>"
proof -
  let ?p = "''PciRoot(0x0)/Pci(0x1C,0x0)/Pci(0x0,0x0)/MAC(B42E99A1B2C3,0x1)''"
  let ?n = "\<lparr>ID = ''1'', Name = ''eth0'', InterfaceEnabled = Some False,
               MACAddress = [], UefiDevicePath = ?p, IPv4Addresses = []\<rparr>"
  let ?m = "\<lambda>orig. \<lparr>ID = ''2'', Name = ''eth1'', InterfaceEnabled = Some False,
               MACAddress = ''b4:2e:99:a1:b2:c4'', UefiDevicePath = ''eth0'',
               IPv4Addresses = [\<lparr>Address = ''10.0.0.9'', Origin = orig\<rparr>]\<rparr>"
  have l: "strings_ToLower ?p =
     ''pciroot(0x0)/pci(0x1c,0x0)/pci(0x0,0x0)/'' @ ''mac('' @ ''b42e99a1b2c3,0x1)''"
    by (simp add: strings_ToLower_def toLower_char_def)
  have h: "path_hint ?p" unfolding path_hint_def using l by blast
  have nh: "\<not> path_hint ''eth0''"
    by (simp add: path_hint_iff strings_ToLower_def toLower_char_def)
  have d1: "\<not> dhcp_origin (?m ''Static'')"
    by (simp add: dhcp_origin_def strings_ToLower_def toLower_char_def)
  have d2: "dhcp_origin (?m ''DHCP'')"
    by (simp add: dhcp_origin_def strings_ToLower_def toLower_char_def)
  from C6_bootable_policy [of ?n ?p "''pciroot(0x0)/pci(0x1c,0x0)/pci(0x0,0x0)/''"
      "''b42e99a1b2c3,0x1)''"]
    C6_bootable_policy [of "?m ''Static''"] C6_bootable_policy [of "?m ''DHCP''"]
    l h nh d1 d2
  show ?thesis by (simp add: bootable_policy_def)
qed

section \<open>Properties of the fleet status results\<close>

lemma fold_errors_dom:
  "dom (errorsList (fold apply_update us a)) =
     dom (errorsList a) \<union> {h. \<exists>m. SetError h m \<in> set us}"
proof (induction us arbitrary: a)
  case Nil
  then show ?case by simp
next
  case (Cons u us)
  show ?case by (cases u) (auto simp: Cons.IH split: if_splits)
qed

lemma apply_count_of:
  "count_of (versionCounts (apply_update u a)) v =
     count_of (versionCounts a) v + (if u = CountVersion v then 1 else 0)"
  by (cases u) (simp_all add: count_of_def)

lemma fold_count_of:
  "count_of (versionCounts (fold apply_update us a)) v =
     count_of (versionCounts a) v + count (mset us) (CountVersion v)"
proof (induction us arbitrary: a)
  case Nil
  then show ?case by simp
next
  case (Cons u us)
  show ?case by (simp add: Cons.IH apply_count_of)
qed

lemma fold_inProgress:
  "inProgress (fold apply_update us a) = inProgress a + of_nat (count (mset us) AddInProgress)"
proof (induction us arbitrary: a)
  case Nil
  then show ?case by simp
next
  case (Cons u us)
  show ?case by (cases u) (auto simp: Cons.IH)
qed

lemma count_sum_alt:
  assumes "finite S" and "dom m \<subseteq> S"
  shows "count_sum m = (\<Sum>w \<in> S. count_of m w)"
proof -
  have "(\<Sum>w \<in> S. count_of m w) = (\<Sum>w \<in> dom m. count_of m w)"
    using assms by (intro sum.mono_neutral_right) (auto simp: count_of_def split: option.splits)
  also have "\<dots> = (\<Sum>w \<in> dom m. the (m w))"
    by (intro sum.cong) (auto simp: count_of_def)
  finally show ?thesis by (simp add: count_sum_def)
qed

lemma count_sum_upd:
  assumes "finite (dom m)"
  shows "count_sum (m(v \<mapsto> count_of m v + 1)) = count_sum m + 1"
proof -
  let ?S = "insert v (dom m)"
  let ?m = "m(v \<mapsto> count_of m v + 1)"
  have fin: "finite ?S" using assms by simp
  have pt: "count_of ?m w = count_of m w + (if w = v then 1 else 0)" for w
    by (simp add: count_of_def)
  have "count_sum ?m = (\<Sum>w \<in> ?S. count_of ?m w)"
    by (rule count_sum_alt [OF fin]) auto
  also have "\<dots> = (\<Sum>w \<in> ?S. count_of m w + (if w = v then 1 else 0))"
    by (simp only: pt)
  also have "\<dots> = (\<Sum>w \<in> ?S. count_of m w) + (\<Sum>w \<in> ?S. if w = v then 1 else 0)"
    by (rule sum.distrib)
  also have "(\<Sum>w \<in> ?S. if w = v then 1 else 0) = (1::nat)"
    using fin by (simp only: sum.delta) simp
  also have "(\<Sum>w \<in> ?S. count_of m w) = count_sum m"
    by (rule count_sum_alt [symmetric, OF fin]) auto
  finally show ?thesis .
qed

lemma fold_count_sum:
  "finite (dom (versionCounts a)) \<Longrightarrow>
     finite (dom (versionCounts (fold apply_update us a))) \<and>
     count_sum (versionCounts (fold apply_update us a)) =
       count_sum (versionCounts a) + length (filter isCount us)"
proof (induction us arbitrary: a)
  case Nil
  then show ?case by simp
next
  case (Cons u us)
  show ?case
  proof (cases u)
    case (SetError h m)
    with Cons.IH [of "apply_update u a"] Cons.prems show ?thesis by simp
  next
    case (CountVersion v)
    let ?a = "apply_update u a"
    have v: "versionCounts ?a = (versionCounts a)(v \<mapsto> count_of (versionCounts a) v + 1)"
      using CountVersion by (simp add: count_of_def)
    have f: "finite (dom (versionCounts ?a))" using Cons.prems CountVersion by simp
    have s: "count_sum (versionCounts ?a) = count_sum (versionCounts a) + 1"
      unfolding v by (rule count_sum_upd [OF Cons.prems])
    have l: "length (filter isCount (u # us)) = length (filter isCount us) + 1"
      using CountVersion by simp
    show ?thesis unfolding fold_simps(2) l using Cons.IH [OF f] s by simp
  next
    case AddInProgress
    with Cons.IH [of "apply_update u a"] Cons.prems show ?thesis by simp
  qed
qed

subsection \<open>The updates of one host\<close>

lemma scanTargets_errors:
  "set (fst (scanTargets gfi h ts ver p)) = {SetError h m | m. \<exists>t \<in> set ts. gfi h t = Inl m}"
proof (induction ts arbitrary: ver p)
  case Nil
  then show ?case by simp
next
  case (Cons t ts)
  show ?case
  proof (cases "gfi h t")
    case (Inl m)
    then show ?thesis using Cons.IH [of ver p] by (auto split: prod.splits)
  next
    case (Inr fw)
    then show ?thesis
      using Cons.IH [of "if ver = [] then Version fw else ver"
          "p \<or> stateInProgress (State fw) \<or> list_ex conditionInProgress (Conditions fw)"]
      by auto
  qed
qed

lemma scanTargets_all_fail:
  "\<forall>t \<in> set ts. isl (gfi h t) \<Longrightarrow> snd (scanTargets gfi h ts ver p) = (ver, p)"
proof (induction ts arbitrary: ver p)
  case Nil
  then show ?case by simp
next
  case (Cons t ts)
  then obtain m where m: "gfi h t = Inl m" by (cases "gfi h t") auto
  from Cons.prems have "\<forall>t \<in> set ts. isl (gfi h t)" by simp
  from Cons.IH [OF this, of ver p] m show ?case
    by (cases "scanTargets gfi h ts ver p") simp
qed

lemma hostTask_shape:
  "hostTask gfi ts h =
     fst (scanTargets gfi h ts [] False) @ [CountVersion (summaryVersion gfi ts h)] @
     (if hostInProgress gfi ts h then [AddInProgress] else [])"
  by (simp add: hostTask_def summaryVersion_def hostInProgress_def split: prod.splits)

lemma scan_no_count: "count (mset (fst (scanTargets gfi h ts ver p))) (CountVersion v) = 0"
  using scanTargets_errors [of gfi h ts ver p] by (auto simp: count_eq_zero_iff)

lemma scan_no_progress: "count (mset (fst (scanTargets gfi h ts ver p))) AddInProgress = 0"
  using scanTargets_errors [of gfi h ts ver p] by (auto simp: count_eq_zero_iff)

lemma scan_filter_count: "filter isCount (fst (scanTargets gfi h ts ver p)) = []"
  using scanTargets_errors [of gfi h ts ver p] by (auto simp: filter_empty_conv)

lemma hostTask_count:
  "count (mset (hostTask gfi ts h)) (CountVersion v) =
     (if summaryVersion gfi ts h = v then 1 else 0)"
  by (simp add: hostTask_shape scan_no_count)

lemma hostTask_progress:
  "count (mset (hostTask gfi ts h)) AddInProgress = (if hostInProgress gfi ts h then 1 else 0)"
  by (simp add: hostTask_shape scan_no_progress)

lemma hostTask_isCount: "length (filter isCount (hostTask gfi ts h)) = 1"
  by (simp add: hostTask_shape scan_filter_count)

lemma hostTask_errors:
  "(SetError h' m \<in> set (hostTask gfi ts h)) = (h' = h \<and> (\<exists>t \<in> set ts. gfi h t = Inl m))"
  using scanTargets_errors [of gfi h ts "[]" False] by (auto simp: hostTask_shape)

lemma all_fail_unknown:
  "\<forall>t \<in> set ts. isl (gfi h t) \<Longrightarrow> summaryVersion gfi ts h = ''(unknown)''"
  using scanTargets_all_fail [of ts gfi h "[]" False]
  by (cases "scanTargets gfi h ts [] False") (simp add: summaryVersion_def)

subsection \<open>The updates of all hosts\<close>

lemma count_concat:
  "count (mset (concat (map f hs))) x = (\<Sum>h \<leftarrow> hs. count (mset (f h)) x)"
  by (induction hs) simp_all

lemma sum_list_indicator: "(\<Sum>h \<leftarrow> hs. if P h then 1 else 0) = length (filter P hs)"
  by (induction hs) simp_all

lemma filter_concat_length:
  "length (filter P (concat (map f hs))) = (\<Sum>h \<leftarrow> hs. length (filter P (f h)))"
  by (induction hs) simp_all

lemma mset_filter_length: "mset us = mset vs \<Longrightarrow> length (filter P us) = length (filter P vs)"
proof -
  assume "mset us = mset vs"
  then have "mset (filter P us) = mset (filter P vs)" by (simp only: mset_filter)
  then show ?thesis by (rule mset_eq_length)
qed

lemma schedule_errors:
  assumes "schedule gfi ts hosts us"
  shows "dom (errorsList (run_updates us)) = {h \<in> set hosts. \<exists>t \<in> set ts. isl (gfi h t)}"
proof -
  from assms have "set us = set (concat (map (hostTask gfi ts) hosts))"
    unfolding schedule_def by (rule mset_eq_setD)
  then have "{h. \<exists>m. SetError h m \<in> set us} =
      {h. \<exists>m. \<exists>h' \<in> set hosts. SetError h m \<in> set (hostTask gfi ts h')}"
    by auto
  also have "\<dots> = {h \<in> set hosts. \<exists>t \<in> set ts. \<exists>m. gfi h t = Inl m}"
    by (auto simp: hostTask_errors)
  also have "\<dots> = {h \<in> set hosts. \<exists>t \<in> set ts. isl (gfi h t)}"
    by (auto simp: isl_def)
  finally show ?thesis
    by (simp add: run_updates_def fold_errors_dom empty_aggregate_def)
qed

lemma schedule_count_of:
  assumes "schedule gfi ts hosts us"
  shows "count_of (versionCounts (run_updates us)) v =
     length (filter (\<lambda>h. summaryVersion gfi ts h = v) hosts)"
proof -
  have "count (mset us) (CountVersion v) =
      count (mset (concat (map (hostTask gfi ts) hosts))) (CountVersion v)"
    using assms by (simp add: schedule_def)
  also have "\<dots> = length (filter (\<lambda>h. summaryVersion gfi ts h = v) hosts)"
    by (simp add: count_concat hostTask_count sum_list_indicator)
  finally have c: "count (mset us) (CountVersion v) =
      length (filter (\<lambda>h. summaryVersion gfi ts h = v) hosts)" .
  have e: "count_of (versionCounts empty_aggregate) v = 0"
    by (simp add: count_of_def empty_aggregate_def)
  show ?thesis unfolding run_updates_def fold_count_of e c by simp
qed

lemma schedule_count_sum:
  assumes "schedule gfi ts hosts us"
  shows "count_sum (versionCounts (run_updates us)) = length hosts"
proof -
  have "length (filter isCount us) =
      length (filter isCount (concat (map (hostTask gfi ts) hosts)))"
    using assms unfolding schedule_def by (rule mset_filter_length)
  also have "\<dots> = length hosts"
    by (simp add: filter_concat_length hostTask_isCount sum_list_triv)
  finally have l: "length (filter isCount us) = length hosts" .
  have "finite (dom (versionCounts empty_aggregate))" by (simp add: empty_aggregate_def)
  have e: "count_sum (versionCounts empty_aggregate) = 0"
    by (simp add: count_sum_def empty_aggregate_def)
  from fold_count_sum [OF \<open>finite (dom (versionCounts empty_aggregate))\<close>, of us] l e
  show ?thesis unfolding run_updates_def by simp
qed

lemma schedule_inProgress:
  assumes "schedule gfi ts hosts us"
  shows "inProgress (run_updates us) = of_nat (length (filter (hostInProgress gfi ts) hosts))"
proof -
  have "count (mset us) AddInProgress =
      count (mset (concat (map (hostTask gfi ts) hosts))) AddInProgress"
    using assms by (simp add: schedule_def)
  also have "\<dots> = length (filter (hostInProgress gfi ts) hosts)"
    by (simp add: count_concat hostTask_progress sum_list_indicator)
  finally have c: "count (mset us) AddInProgress =
      length (filter (hostInProgress gfi ts) hosts)" .
  have e: "inProgress empty_aggregate = 0" by (simp add: empty_aggregate_def)
  show ?thesis unfolding run_updates_def fold_inProgress e c by simp
qed

lemma schedule_dispatch: "schedule gfi ts hosts (concat (map (hostTask gfi ts) hosts))"
  by (simp add: schedule_def)

subsection \<open>The aggregate\<close>

text \<open>
  C1, as the code has it. In a dispatch in which every host either fails (each of its
  queries errors) or succeeds (none does), under every schedule: the error map has an
  entry for exactly the failed hosts; the version counts sum to the number of all hosts
  dispatched, each host being counted once, under the version its goroutine found; and a
  failed host is counted under \<^verbatim>\<open>(unknown)\<close>.
\<close>

theorem C1_aggregate_of_dispatch:
  assumes "schedule gfi targets hosts us"
    and "\<forall>h \<in> set hosts. (\<forall>t \<in> set targets. isl (gfi h t)) \<or> (\<forall>t \<in> set targets. \<not> isl (gfi h t))"
    and "targets \<noteq> []"
  shows "dom (errorsList (run_updates us)) = {h \<in> set hosts. \<forall>t \<in> set targets. isl (gfi h t)} \<and>
     count_sum (versionCounts (run_updates us)) = length hosts \<and>
     (\<forall>v. count_of (versionCounts (run_updates us)) v =
        length (filter (\<lambda>h. summaryVersion gfi targets h = v) hosts)) \<and>
     (\<forall>h \<in> set hosts. (\<forall>t \<in> set targets. isl (gfi h t)) \<longrightarrow>
        summaryVersion gfi targets h = ''(unknown)'')"
proof (intro conjI allI ballI impI)
  from assms(3) obtain t0 where t0: "t0 \<in> set targets" by (cases targets) auto
  have "{h \<in> set hosts. \<exists>t \<in> set targets. isl (gfi h t)} =
      {h \<in> set hosts. \<forall>t \<in> set targets. isl (gfi h t)}"
    using assms(2) t0 by blast
  then show "dom (errorsList (run_updates us)) =
      {h \<in> set hosts. \<forall>t \<in> set targets. isl (gfi h t)}"
    by (simp only: schedule_errors [OF assms(1)])
next
  show "count_sum (versionCounts (run_updates us)) = length hosts"
    by (rule schedule_count_sum [OF assms(1)])
next
  fix v
  show "count_of (versionCounts (run_updates us)) v =
      length (filter (\<lambda>h. summaryVersion gfi targets h = v) hosts)"
    by (rule schedule_count_of [OF assms(1)])
next
  fix h assume "\<forall>t \<in> set targets. isl (gfi h t)"
  then show "summaryVersion gfi targets h = ''(unknown)''" by (rule all_fail_unknown)
qed

lemma Enabled_idle: "\<not> stateInProgress ''Enabled''"
  by (simp add: stateInProgress_def strings_ToLower_def toLower_char_def)

lemma dispatch_two_hosts:
  "dispatch (\<lambda>h t. if h = ''bmc1'' then Inl ''timeout''
               else Inr \<lparr>Version = ''1.0.0'', State = ''Enabled'', Conditions = []\<rparr>)
     [''/redfish/v1/UpdateService/FirmwareInventory/BMC''] [''bmc1'', ''bmc2''] =
   \<lparr>versionCounts = [''(unknown)'' \<mapsto> 1, ''1.0.0'' \<mapsto> 1], inProgress = 0,
    errorsList = [''bmc1'' \<mapsto> ''timeout'']\<rparr>"
  by (simp add: dispatch_def run_updates_def hostTask_def empty_aggregate_def Enabled_idle)

theorem C1_aggregate_of_dispatch_witness:
  "schedule (\<lambda>h t. if h = ''bmc1'' then Inl ''timeout''
               else Inr \<lparr>Version = ''1.0.0'', State = ''Enabled'', Conditions = []\<rparr>)
     [''/redfish/v1/UpdateService/FirmwareInventory/BMC''] [''bmc1'', ''bmc2'']
     [SetError ''bmc1'' ''timeout'', CountVersion ''1.0.0'', CountVersion ''(unknown)''] \<and>
   dom (errorsList (run_updates
     [SetError ''bmc1'' ''timeout'', CountVersion ''1.0.0'', CountVersion ''(unknown)''])) =
     {''bmc1''} \<and>
   count_sum (versionCounts (run_updates
     [SetError ''bmc1'' ''timeout'', CountVersion ''1.0.0'', CountVersion ''(unknown)''])) = 2"
proof -
  let ?gfi = "\<lambda>h t. if h = ''bmc1'' then Inl ''timeout''
               else Inr \<lparr>Version = ''1.0.0'', State = ''Enabled'', Conditions = []\<rparr>"
  let ?ts = "[''/redfish/v1/UpdateService/FirmwareInventory/BMC'']"
  let ?hs = "[''bmc1'', ''bmc2'']"
  let ?us = "[SetError ''bmc1'' ''timeout'', CountVersion ''1.0.0'', CountVersion ''(unknown)'']"
  have s: "schedule ?gfi ?ts ?hs ?us"
    by (simp add: schedule_def hostTask_def Enabled_idle)
  have a: "\<forall>h \<in> set ?hs. (\<forall>t \<in> set ?ts. isl (?gfi h t)) \<or> (\<forall>t \<in> set ?ts. \<not> isl (?gfi h t))"
    by simp
  have f: "{h \<in> set ?hs. \<forall>t \<in> set ?ts. isl (?gfi h t)} = {''bmc1''}" by auto
  from C1_aggregate_of_dispatch [OF s a] s f show ?thesis by simp
qed

text \<open>
  The claim C1 as stated fails: with one host failing and one succeeding, the version
  counts sum to 2, not to the one succeeding host, and the failed host is in the error
  map and in the version counts (under \<^verbatim>\<open>(unknown)\<close>).
\<close>

theorem C1_counterexample:
  "errorsList (dispatch (\<lambda>h t. if h = ''bmc1'' then Inl ''timeout''
               else Inr \<lparr>Version = ''1.0.0'', State = ''Enabled'', Conditions = []\<rparr>)
     [''/redfish/v1/UpdateService/FirmwareInventory/BMC''] [''bmc1'', ''bmc2'']) ''bmc1'' =
     Some ''timeout'' \<and>
   versionCounts (dispatch (\<lambda>h t. if h = ''bmc1'' then Inl ''timeout''
               else Inr \<lparr>Version = ''1.0.0'', State = ''Enabled'', Conditions = []\<rparr>)
     [''/redfish/v1/UpdateService/FirmwareInventory/BMC''] [''bmc1'', ''bmc2'']) ''(unknown)'' =
     Some 1 \<and>
   versionCounts (dispatch (\<lambda>h t. if h = ''bmc1'' then Inl ''timeout''
               else Inr \<lparr>Version = ''1.0.0'', State = ''Enabled'', Conditions = []\<rparr>)
     [''/redfish/v1/UpdateService/FirmwareInventory/BMC''] [''bmc1'', ''bmc2'']) ''1.0.0'' =
     Some 1 \<and>
   count_sum (versionCounts (dispatch (\<lambda>h t. if h = ''bmc1'' then Inl ''timeout''
               else Inr \<lparr>Version = ''1.0.0'', State = ''Enabled'', Conditions = []\<rparr>)
     [''/redfish/v1/UpdateService/FirmwareInventory/BMC''] [''bmc1'', ''bmc2''])) = 2"
proof -
  have "count_sum [''(unknown)'' \<mapsto> 1, ''1.0.0'' \<mapsto> 1::nat] = 2"
  proof -
    have "dom [''(unknown)'' \<mapsto> 1, ''1.0.0'' \<mapsto> 1::nat] = {''(unknown)'', ''1.0.0''}"
      by auto
    then show ?thesis by (simp add: count_sum_def)
  qed
  then show ?thesis unfolding dispatch_two_hosts by simp
qed

text \<open>
  C7. The goroutine of a host adds to the in-progress counter at most once, however many
  of its targets report an update in progress; under every schedule the counter ends at
  the number of hosts whose goroutine found an update in progress.
\<close>

theorem C7_in_progress_once_per_host:
  "length (filter (\<lambda>u. u = AddInProgress) (hostTask gfi targets h)) \<le> 1 \<and>
   (schedule gfi targets hosts us \<longrightarrow>
      inProgress (run_updates us) =
        of_nat (length (filter (hostInProgress gfi targets) hosts)))"
proof
  have "length (filter (\<lambda>u. u = AddInProgress) xs) = count (mset xs) AddInProgress" for xs
    by (induction xs) auto
  then have "length (filter (\<lambda>u. u = AddInProgress) (hostTask gfi targets h)) =
      count (mset (hostTask gfi targets h)) AddInProgress" .
  then show "length (filter (\<lambda>u. u = AddInProgress) (hostTask gfi targets h)) \<le> 1"
    by (simp add: hostTask_progress)
  show "schedule gfi targets hosts us \<longrightarrow>
      inProgress (run_updates us) =
        of_nat (length (filter (hostInProgress gfi targets) hosts))"
    by (simp add: schedule_inProgress)
qed

theorem C7_in_progress_once_per_host_witness:
  "hostTask (\<lambda>h t. Inr \<lparr>Version = ''2.1'', State = ''Updating'',
        Conditions = [\<lparr>Message = ''Update in progress'', Severity = ''Warning''\<rparr>]\<rparr>)
     [''/redfish/v1/UpdateService/FirmwareInventory/Node0.BIOS'',
      ''/redfish/v1/UpdateService/FirmwareInventory/Node1.BIOS''] ''bmc1'' =
     [CountVersion ''2.1'', AddInProgress] \<and>
   schedule (\<lambda>h t. Inr \<lparr>Version = ''2.1'', State = ''Updating'',
        Conditions = [\<lparr>Message = ''Update in progress'', Severity = ''Warning''\<rparr>]\<rparr>)
     [''/redfish/v1/UpdateService/FirmwareInventory/Node0.BIOS'',
      ''/redfish/v1/UpdateService/FirmwareInventory/Node1.BIOS''] [''bmc1'']
     [CountVersion ''2.1'', AddInProgress] \<and>
   inProgress (run_updates [CountVersion ''2.1'', AddInProgress]) = 1"
proof -
  let ?gfi = "\<lambda>h t. Inr \<lparr>Version = ''2.1'', State = ''Updating'',
        Conditions = [\<lparr>Message = ''Update in progress'', Severity = ''Warning''\<rparr>]\<rparr>"
  let ?ts = "[''/redfish/v1/UpdateService/FirmwareInventory/Node0.BIOS'',
      ''/redfish/v1/UpdateService/FirmwareInventory/Node1.BIOS'']"
  have st: "stateInProgress ''Updating''"
    by (simp add: stateInProgress_def strings_ToLower_def toLower_char_def)
  have t: "hostTask ?gfi ?ts ''bmc1'' = [CountVersion ''2.1'', AddInProgress]"
    by (simp add: hostTask_def st)
  have s: "schedule ?gfi ?ts [''bmc1''] [CountVersion ''2.1'', AddInProgress]"
    by (simp add: schedule_def t)
  have p: "hostInProgress ?gfi ?ts ''bmc1''" by (simp add: hostInProgress_def st)
  from C7_in_progress_once_per_host [of ?gfi ?ts "''bmc1''" "[''bmc1'']"
      "[CountVersion ''2.1'', AddInProgress]"] t s p
  show ?thesis by simp
qed

section \<open>Properties of discovery\<close>


lemma assignNICs_ConsE:
  assumes "assignNICs E nodes bx len idx (nic # nics) a = Inr (es, a')"
    and "x = (if len > 1 then bmcXnameToNode E bx @ ''-pxe'' @ showNat (idx + 1)
              else bmcXnameToNode E bx)"
  obtains ip a1 es' where
    "es = \<lparr>Xname = x, MAC = strings_ToLower (MACAddress nic), IP = ip\<rparr> # es'"
    and "assignNICs E nodes bx len (idx + 1) nics a1 = Inr (es', a')"
    and "prefix a1 = prefix a"
    and "(\<exists>e. findByXname nodes x = Some e \<and> ip = IP e \<and> ParseIP E ip \<noteq> None) \<or>
         (\<exists>y. Contains (prefix a) y \<and> ip = IPString E y)"
proof -
  let ?x = "x"
  let ?sel = "case findByXname nodes ?x of
              None \<Rightarrow> None
            | Some existing \<Rightarrow>
                (case ParseIP E (IP existing) of
                   None \<Rightarrow> None
                 | Some ip \<Rightarrow> Some (IP existing, ip))"
  have step: "assignNICs E nodes bx len idx (nic # nics) a =
      (case ?sel of
         Some (ipStr, ip) \<Rightarrow>
           (case assignNICs E nodes bx len (idx + 1) nics (reserve a ip) of
              Inl f \<Rightarrow> Inl f
            | Inr (out, alloc') \<Rightarrow>
                Inr (\<lparr>Xname = ?x, MAC = strings_ToLower (MACAddress nic), IP = ipStr\<rparr> # out,
                     alloc'))
       | None \<Rightarrow>
           (case alloc_next a of
              Inl err \<Rightarrow> Inl (IpamAllocate ?x err)
            | Inr (addr, alloc1) \<Rightarrow>
                (case assignNICs E nodes bx len (idx + 1) nics alloc1 of
                   Inl f \<Rightarrow> Inl f
                 | Inr (out, alloc') \<Rightarrow>
                     Inr (\<lparr>Xname = ?x, MAC = strings_ToLower (MACAddress nic),
                           IP = IPString E addr\<rparr> # out,
                          alloc'))))"
    unfolding assms(2) by (simp only: assignNICs.simps Let_def)
  show thesis
  proof (cases ?sel)
    case None
    from assms(1) have 1: "(case alloc_next a of
              Inl err \<Rightarrow> Inl (IpamAllocate ?x err)
            | Inr (addr, alloc1) \<Rightarrow>
                (case assignNICs E nodes bx len (idx + 1) nics alloc1 of
                   Inl f \<Rightarrow> Inl f
                 | Inr (out, alloc') \<Rightarrow>
                     Inr (\<lparr>Xname = ?x, MAC = strings_ToLower (MACAddress nic),
                           IP = IPString E addr\<rparr> # out,
                          alloc'))) = Inr (es, a')"
      unfolding step None by (simp only: option.case)
    then obtain addr alloc1 where n: "alloc_next a = Inr (addr, alloc1)"
      by (cases "alloc_next a") auto
    from 1 have 2: "(case assignNICs E nodes bx len (idx + 1) nics alloc1 of
                   Inl f \<Rightarrow> Inl f
                 | Inr (out, alloc') \<Rightarrow>
                     Inr (\<lparr>Xname = ?x, MAC = strings_ToLower (MACAddress nic),
                           IP = IPString E addr\<rparr> # out,
                          alloc')) = Inr (es, a')"
      unfolding n by (simp only: sum.case prod.case)
    then obtain es' where r: "assignNICs E nodes bx len (idx + 1) nics alloc1 = Inr (es', a')"
      and e: "es = \<lparr>Xname = ?x, MAC = strings_ToLower (MACAddress nic),
                    IP = IPString E addr\<rparr> # es'"
      by (cases "assignNICs E nodes bx len (idx + 1) nics alloc1") auto
    have "prefix alloc1 = prefix a" using alloc_next_Inr(3) [OF n] by simp
    moreover have "Contains (prefix a) addr" by (rule alloc_next_Inr(1) [OF n])
    ultimately show ?thesis using that [OF e r] by blast
  next
    case (Some p)
    obtain ipStr ip where p: "p = (ipStr, ip)" by (cases p)
    from Some p obtain e where f: "findByXname nodes ?x = Some e" and i: "ipStr = IP e"
      and q: "ParseIP E (IP e) = Some ip"
      by (cases "findByXname nodes ?x"; cases "ParseIP E (IP (the (findByXname nodes ?x)))")
        auto
    from assms(1) have "(case assignNICs E nodes bx len (idx + 1) nics (reserve a ip) of
              Inl f \<Rightarrow> Inl f
            | Inr (out, alloc') \<Rightarrow>
                Inr (\<lparr>Xname = ?x, MAC = strings_ToLower (MACAddress nic), IP = ipStr\<rparr> # out,
                     alloc')) = Inr (es, a')"
      unfolding step Some p by (simp only: option.case prod.case)
    then obtain es' where
      r: "assignNICs E nodes bx len (idx + 1) nics (reserve a ip) = Inr (es', a')"
      and e: "es = \<lparr>Xname = ?x, MAC = strings_ToLower (MACAddress nic), IP = ipStr\<rparr> # es'"
      by (cases "assignNICs E nodes bx len (idx + 1) nics (reserve a ip)") auto
    have "prefix (reserve a ip) = prefix a" by (rule reserve_prefix)
    moreover have "\<exists>e. findByXname nodes ?x = Some e \<and> ipStr = IP e \<and> ParseIP E ipStr \<noteq> None"
      using f i q by auto
    ultimately show ?thesis using that [OF e r] by blast
  qed
qed

lemma assignNICs_reuse:
  assumes "x = (if len > 1 then bmcXnameToNode E bx @ ''-pxe'' @ showNat (idx + 1)
                else bmcXnameToNode E bx)"
    and "findByXname N x = Some e"
    and "ParseIP E (IP e) = Some ip"
  shows "assignNICs E N bx len idx (nic # nics) a =
     (case assignNICs E N bx len (idx + 1) nics (reserve a ip) of
        Inl f \<Rightarrow> Inl f
      | Inr (out, alloc') \<Rightarrow>
          Inr (\<lparr>Xname = x, MAC = strings_ToLower (MACAddress nic), IP = IP e\<rparr> # out, alloc'))"
proof -
  note f = assms(2) [unfolded assms(1)]
  show ?thesis
    unfolding assms(1)
    by (simp only: assignNICs.simps Let_def f assms(3) option.case prod.case)
qed

lemma assignNICs_rerun:
  assumes "assignNICs E nodes bx len idx nics a1 = Inr (es, a1')"
    and "\<forall>e \<in> set es. \<exists>e'. findByXname N (Xname e) = Some e' \<and> IP e' = IP e \<and>
           ParseIP E (IP e') \<noteq> None"
  shows "\<exists>a2'. assignNICs E N bx len idx nics a2 = Inr (es, a2')"
  using assms
proof (induction nics arbitrary: idx a1 a2 es)
  case Nil
  then show ?case by simp
next
  case (Cons nic nics)
  define x where "x = (if len > 1 then bmcXnameToNode E bx @ ''-pxe'' @ showNat (idx + 1)
            else bmcXnameToNode E bx)"
  define mac where "mac = strings_ToLower (MACAddress nic)"
  from Cons.prems(1) x_def obtain ip a1m es' where
    es: "es = \<lparr>Xname = x, MAC = strings_ToLower (MACAddress nic), IP = ip\<rparr> # es'"
    and r: "assignNICs E nodes bx len (idx + 1) nics a1m = Inr (es', a1')"
    by (rule assignNICs_ConsE)
  have mem: "\<lparr>Xname = x, MAC = strings_ToLower (MACAddress nic), IP = ip\<rparr> \<in> set es"
    by (simp add: es)
  from Cons.prems(2) [rule_format, OF mem] obtain e' where f: "findByXname N x = Some e'"
    and i: "IP e' = ip" and q: "ParseIP E (IP e') \<noteq> None"
    by auto
  from q obtain addr where p: "ParseIP E (IP e') = Some addr" by auto
  have rest: "\<forall>e \<in> set es'. \<exists>e'. findByXname N (Xname e) = Some e' \<and>
      IP e' = IP e \<and> ParseIP E (IP e') \<noteq> None"
  proof
    fix e assume "e \<in> set es'"
    then have "e \<in> set es" by (simp add: es)
    then show "\<exists>e'. findByXname N (Xname e) = Some e' \<and> IP e' = IP e \<and>
        ParseIP E (IP e') \<noteq> None"
      by (rule Cons.prems(2) [rule_format])
  qed
  from Cons.IH [OF r rest, of "reserve a2 addr"] obtain a2' where
    n: "assignNICs E N bx len (idx + 1) nics (reserve a2 addr) = Inr (es', a2')" by blast
  have "assignNICs E N bx len idx (nic # nics) a2 = Inr (es, a2')"
    by (simp only: assignNICs_reuse [OF x_def f p] n sum.case prod.case es i)
  then show ?case by blast
qed

lemma assignNICs_parse:
  assumes "assignNICs E nodes bx len idx nics a = Inr (es, a')"
    and "\<forall>y. Contains (prefix a) y \<longrightarrow> ParseIP E (IPString E y) \<noteq> None"
  shows "prefix a' = prefix a \<and> (\<forall>e \<in> set es. ParseIP E (IP e) \<noteq> None)"
  using assms
proof (induction nics arbitrary: idx a es)
  case Nil
  then show ?case by simp
next
  case (Cons nic nics)
  define x where "x = (if len > 1 then bmcXnameToNode E bx @ ''-pxe'' @ showNat (idx + 1)
            else bmcXnameToNode E bx)"
  from Cons.prems(1) x_def obtain ip a1 es' where
    es: "es = \<lparr>Xname = x, MAC = strings_ToLower (MACAddress nic), IP = ip\<rparr> # es'"
    and r: "assignNICs E nodes bx len (idx + 1) nics a1 = Inr (es', a')"
    and pa: "prefix a1 = prefix a"
    and ip: "(\<exists>e. findByXname nodes x = Some e \<and> ip = IP e \<and> ParseIP E ip \<noteq> None) \<or>
         (\<exists>y. Contains (prefix a) y \<and> ip = IPString E y)"
    by (rule assignNICs_ConsE)
  from ip Cons.prems(2) have ok: "ParseIP E ip \<noteq> None" by blast
  from Cons.prems(2) pa have "\<forall>y. Contains (prefix a1) y \<longrightarrow> ParseIP E (IPString E y) \<noteq> None"
    by simp
  from Cons.IH [OF r this] pa es ok show ?case by simp
qed

lemma discoverBMCs_Cons:
  assumes "discoverBMCs E nodes (b # bmcs) a = Inr (out, hosts)"
  obtains new a1 out' hosts' where
    "out = new @ out'" and "discoverBMCs E nodes bmcs a1 = Inr (out', hosts')"
    and "hosts = (if IP b = [] then Xname b else IP b) # hosts'"
    and "(\<exists>err. queryNICs E (if IP b = [] then Xname b else IP b) = Inl err \<and> new = [] \<and> a1 = a) \<or>
         (\<exists>nics. queryNICs E (if IP b = [] then Xname b else IP b) = Inr nics \<and>
            assignNICs E nodes (Xname b) (length (bootableNICs nics)) 0 (bootableNICs nics) a =
              Inr (new, a1))"
proof (cases "queryNICs E (if IP b = [] then Xname b else IP b)")
  case (Inl err)
  with assms obtain hosts' where "discoverBMCs E nodes bmcs a = Inr (out, hosts')"
    and "hosts = (if IP b = [] then Xname b else IP b) # hosts'"
    by (cases "discoverBMCs E nodes bmcs a") (auto simp: Let_def)
  with Inl that [of "[]" out a hosts'] show ?thesis by simp
next
  case (Inr nics)
  let ?as = "assignNICs E nodes (Xname b) (length (bootableNICs nics)) 0 (bootableNICs nics) a"
  from assms Inr obtain new a1 where as: "?as = Inr (new, a1)"
    by (cases ?as) (auto simp: Let_def)
  from assms Inr as obtain out' hosts' where "discoverBMCs E nodes bmcs a1 = Inr (out', hosts')"
    and "out = new @ out'" and "hosts = (if IP b = [] then Xname b else IP b) # hosts'"
    by (cases "discoverBMCs E nodes bmcs a1") (auto simp: Let_def)
  with Inr as that [of new out' a1 hosts'] show ?thesis by simp
qed

lemma discoverBMCs_skip:
  "queryNICs E (if IP b = [] then Xname b else IP b) = Inl err \<Longrightarrow>
   discoverBMCs E N bmcs a = Inr (out, hosts) \<Longrightarrow>
   discoverBMCs E N (b # bmcs) a = Inr (out, (if IP b = [] then Xname b else IP b) # hosts)"
  by (simp add: Let_def)

lemma discoverBMCs_assign:
  "queryNICs E (if IP b = [] then Xname b else IP b) = Inr nics \<Longrightarrow>
   assignNICs E N (Xname b) (length (bootableNICs nics)) 0 (bootableNICs nics) a = Inr (new, a1) \<Longrightarrow>
   discoverBMCs E N bmcs a1 = Inr (out, hosts) \<Longrightarrow>
   discoverBMCs E N (b # bmcs) a = Inr (new @ out, (if IP b = [] then Xname b else IP b) # hosts)"
  by (simp add: Let_def)

lemma discoverBMCs_rerun:
  assumes "discoverBMCs E nodes bmcs a1 = Inr (out, hosts)"
    and "\<forall>e \<in> set out. \<exists>e'. findByXname N (Xname e) = Some e' \<and> IP e' = IP e \<and>
           ParseIP E (IP e') \<noteq> None"
  shows "discoverBMCs E N bmcs a2 = Inr (out, hosts)"
  using assms
proof (induction bmcs arbitrary: a1 a2 out hosts)
  case Nil
  then show ?case by simp
next
  case (Cons b bmcs)
  from Cons.prems(1) obtain new a1m out' hosts' where
    out: "out = new @ out'" and r: "discoverBMCs E nodes bmcs a1m = Inr (out', hosts')"
    and hosts: "hosts = (if IP b = [] then Xname b else IP b) # hosts'"
    and q: "(\<exists>err. queryNICs E (if IP b = [] then Xname b else IP b) = Inl err \<and> new = [] \<and> a1m = a1) \<or>
         (\<exists>nics. queryNICs E (if IP b = [] then Xname b else IP b) = Inr nics \<and>
            assignNICs E nodes (Xname b) (length (bootableNICs nics)) 0 (bootableNICs nics) a1 =
              Inr (new, a1m))"
    by (rule discoverBMCs_Cons)
  have g1: "\<forall>e \<in> set new. \<exists>e'. findByXname N (Xname e) = Some e' \<and> IP e' = IP e \<and>
           ParseIP E (IP e') \<noteq> None"
    using Cons.prems(2) out by simp
  have g2: "\<forall>e \<in> set out'. \<exists>e'. findByXname N (Xname e) = Some e' \<and> IP e' = IP e \<and>
           ParseIP E (IP e') \<noteq> None"
    using Cons.prems(2) out by simp
  from q show ?case
  proof
    assume "\<exists>err. queryNICs E (if IP b = [] then Xname b else IP b) = Inl err \<and> new = [] \<and> a1m = a1"
    then obtain err where e: "queryNICs E (if IP b = [] then Xname b else IP b) = Inl err"
      and n: "new = []" by blast
    from Cons.IH [OF r g2, of a2] have "discoverBMCs E N bmcs a2 = Inr (out', hosts')" .
    from discoverBMCs_skip [OF e this] out n hosts show ?thesis by simp
  next
    assume "\<exists>nics. queryNICs E (if IP b = [] then Xname b else IP b) = Inr nics \<and>
            assignNICs E nodes (Xname b) (length (bootableNICs nics)) 0 (bootableNICs nics) a1 =
              Inr (new, a1m)"
    then obtain nics where e: "queryNICs E (if IP b = [] then Xname b else IP b) = Inr nics"
      and as: "assignNICs E nodes (Xname b) (length (bootableNICs nics)) 0 (bootableNICs nics) a1 =
              Inr (new, a1m)" by blast
    from assignNICs_rerun [OF as g1, of a2] obtain a2m where
      as2: "assignNICs E N (Xname b) (length (bootableNICs nics)) 0 (bootableNICs nics) a2 =
              Inr (new, a2m)" by blast
    from Cons.IH [OF r g2, of a2m] have "discoverBMCs E N bmcs a2m = Inr (out', hosts')" .
    from discoverBMCs_assign [OF e as2 this] out hosts show ?thesis by simp
  qed
qed

lemma discoverBMCs_parse:
  assumes "discoverBMCs E nodes bmcs a = Inr (out, hosts)"
    and "\<forall>y. Contains (prefix a) y \<longrightarrow> ParseIP E (IPString E y) \<noteq> None"
  shows "\<forall>e \<in> set out. ParseIP E (IP e) \<noteq> None"
  using assms
proof (induction bmcs arbitrary: a out hosts)
  case Nil
  then show ?case by simp
next
  case (Cons b bmcs)
  from Cons.prems(1) obtain new a1 out' hosts' where
    out: "out = new @ out'" and r: "discoverBMCs E nodes bmcs a1 = Inr (out', hosts')"
    and q: "(\<exists>err. queryNICs E (if IP b = [] then Xname b else IP b) = Inl err \<and> new = [] \<and> a1 = a) \<or>
         (\<exists>nics. queryNICs E (if IP b = [] then Xname b else IP b) = Inr nics \<and>
            assignNICs E nodes (Xname b) (length (bootableNICs nics)) 0 (bootableNICs nics) a =
              Inr (new, a1))"
    by (rule discoverBMCs_Cons)
  from q have "prefix a1 = prefix a \<and> (\<forall>e \<in> set new. ParseIP E (IP e) \<noteq> None)"
  proof
    assume "\<exists>err. queryNICs E (if IP b = [] then Xname b else IP b) = Inl err \<and> new = [] \<and> a1 = a"
    then show ?thesis by auto
  next
    assume "\<exists>nics. queryNICs E (if IP b = [] then Xname b else IP b) = Inr nics \<and>
            assignNICs E nodes (Xname b) (length (bootableNICs nics)) 0 (bootableNICs nics) a =
              Inr (new, a1)"
    then obtain nics where
      "assignNICs E nodes (Xname b) (length (bootableNICs nics)) 0 (bootableNICs nics) a =
              Inr (new, a1)" by blast
    from assignNICs_parse [OF this Cons.prems(2)] show ?thesis .
  qed
  then have p: "prefix a1 = prefix a" and n: "\<forall>e \<in> set new. ParseIP E (IP e) \<noteq> None"
    by simp_all
  from Cons.prems(2) p have "\<forall>y. Contains (prefix a1) y \<longrightarrow> ParseIP E (IPString E y) \<noteq> None"
    by simp
  from Cons.IH [OF r this] n out show ?case by auto
qed

lemma reserveExisting_prefix: "prefix (reserveExisting E nodes a) = prefix a"
  by (induction nodes arbitrary: a) (auto simp: reserve_prefix split: option.splits)

lemma findByXname_distinct:
  "distinct (map Xname N) \<Longrightarrow> e \<in> set N \<Longrightarrow> findByXname N (Xname e) = Some e"
  by (induction N) auto

text \<open>
  C2, as the code has it. Where the first run's node list has pairwise distinct xnames, a
  second run against the same controllers, with the same answers and the node list the
  first run wrote, gives that node list again. Printed addresses are assumed to parse.
\<close>

theorem C2_discovery_idempotent:
  assumes "discover E subnet bmcs nodes = Inr (out, hosts)"
    and "distinct (map Xname out)"
    and "\<forall>a \<in> set (addrs subnet). ParseIP E (IPString E a) \<noteq> None"
  shows "discover E subnet bmcs out = Inr (out, hosts)"
proof -
  from assms(1) have ne: "bmcs \<noteq> []" by (auto simp: discover_def split: if_splits)
  from assms(1) ne obtain alloc where new: "newAllocator subnet = Inr alloc"
    and run: "discoverBMCs E nodes bmcs (reserveExisting E nodes alloc) = Inr (out, hosts)"
    by (cases "newAllocator subnet") (auto simp: discover_def)
  have "prefix (reserveExisting E nodes alloc) = subnet"
    by (simp add: reserveExisting_prefix newAllocator_Inr(2) [OF new])
  with assms(3) have "\<forall>y. Contains (prefix (reserveExisting E nodes alloc)) y \<longrightarrow>
      ParseIP E (IPString E y) \<noteq> None"
    by (simp add: set_addrs)
  from discoverBMCs_parse [OF run this] have parse: "\<forall>e \<in> set out. ParseIP E (IP e) \<noteq> None" .
  have "\<forall>e \<in> set out. \<exists>e'. findByXname out (Xname e) = Some e' \<and> IP e' = IP e \<and>
      ParseIP E (IP e') \<noteq> None"
    using parse findByXname_distinct [OF assms(2)] by blast
  from discoverBMCs_rerun [OF run this, of "reserveExisting E out alloc"] ne new
  show ?thesis by (simp add: discover_def)
qed

subsection \<open>Two controllers and a pool of eight addresses, evaluated\<close>

lemma example_first_run:
  "discover example_externals (Cidr (IPv4 10 42 0 0) 29)
     [\<lparr>Xname = ''x9000c1s0b0'', MAC = ''02:23:28:01:30:00'', IP = ''192.168.100.1''\<rparr>,
      \<lparr>Xname = ''x9000c1s0b1'', MAC = ''02:23:28:01:30:10'', IP = []\<rparr>] [] =
   Inr ([\<lparr>Xname = ''x9000c1s0b0n0'', MAC = ''b4:2e:99:a1:b2:c3'', IP = ''10.42.0.2''\<rparr>,
         \<lparr>Xname = ''x9000c1s0b1n0'', MAC = ''b4:2e:99:a1:b2:c3'', IP = ''10.42.0.3''\<rparr>],
        [''192.168.100.1'', ''x9000c1s0b1''])"
  by code_simp

lemma example_parse:
  "\<forall>a \<in> set (addrs (Cidr (IPv4 10 42 0 0) 29)).
     ParseIP example_externals (IPString example_externals a) \<noteq> None"
  by code_simp

theorem C2_discovery_idempotent_witness:
  "discover example_externals (Cidr (IPv4 10 42 0 0) 29)
     [\<lparr>Xname = ''x9000c1s0b0'', MAC = ''02:23:28:01:30:00'', IP = ''192.168.100.1''\<rparr>,
      \<lparr>Xname = ''x9000c1s0b1'', MAC = ''02:23:28:01:30:10'', IP = []\<rparr>] [] =
   Inr ([\<lparr>Xname = ''x9000c1s0b0n0'', MAC = ''b4:2e:99:a1:b2:c3'', IP = ''10.42.0.2''\<rparr>,
         \<lparr>Xname = ''x9000c1s0b1n0'', MAC = ''b4:2e:99:a1:b2:c3'', IP = ''10.42.0.3''\<rparr>],
        [''192.168.100.1'', ''x9000c1s0b1'']) \<and>
   distinct (map Xname
       [\<lparr>Xname = ''x9000c1s0b0n0'', MAC = ''b4:2e:99:a1:b2:c3'', IP = ''10.42.0.2''\<rparr>,
        \<lparr>Xname = ''x9000c1s0b1n0'', MAC = ''b4:2e:99:a1:b2:c3'', IP = ''10.42.0.3''\<rparr>]) \<and>
   discover example_externals (Cidr (IPv4 10 42 0 0) 29)
     [\<lparr>Xname = ''x9000c1s0b0'', MAC = ''02:23:28:01:30:00'', IP = ''192.168.100.1''\<rparr>,
      \<lparr>Xname = ''x9000c1s0b1'', MAC = ''02:23:28:01:30:10'', IP = []\<rparr>]
     [\<lparr>Xname = ''x9000c1s0b0n0'', MAC = ''b4:2e:99:a1:b2:c3'', IP = ''10.42.0.2''\<rparr>,
      \<lparr>Xname = ''x9000c1s0b1n0'', MAC = ''b4:2e:99:a1:b2:c3'', IP = ''10.42.0.3''\<rparr>] =
   Inr ([\<lparr>Xname = ''x9000c1s0b0n0'', MAC = ''b4:2e:99:a1:b2:c3'', IP = ''10.42.0.2''\<rparr>,
         \<lparr>Xname = ''x9000c1s0b1n0'', MAC = ''b4:2e:99:a1:b2:c3'', IP = ''10.42.0.3''\<rparr>],
        [''192.168.100.1'', ''x9000c1s0b1''])"
proof -
  have d: "distinct (map Xname
       [\<lparr>Xname = ''x9000c1s0b0n0'', MAC = ''b4:2e:99:a1:b2:c3'', IP = ''10.42.0.2''\<rparr>,
        \<lparr>Xname = ''x9000c1s0b1n0'', MAC = ''b4:2e:99:a1:b2:c3'', IP = ''10.42.0.3''\<rparr>])"
    by simp
  from C2_discovery_idempotent [OF example_first_run d example_parse] example_first_run d
  show ?thesis by (intro conjI)
qed

text \<open>
  The claim C2 as stated fails where two controllers give the same node xname (here two
  entries of the inventory with one xname): the first run allocates two addresses, the
  second run finds the first entry of that xname for both nodes and gives both
  10.42.0.2.
\<close>

theorem C2_counterexample:
  "discover example_externals (Cidr (IPv4 10 42 0 0) 29)
     [\<lparr>Xname = ''x9000c1s0b0'', MAC = ''02:23:28:01:30:00'', IP = ''192.168.100.1''\<rparr>,
      \<lparr>Xname = ''x9000c1s0b0'', MAC = ''02:23:28:01:30:10'', IP = ''192.168.100.2''\<rparr>] [] =
   Inr ([\<lparr>Xname = ''x9000c1s0b0n0'', MAC = ''b4:2e:99:a1:b2:c3'', IP = ''10.42.0.2''\<rparr>,
         \<lparr>Xname = ''x9000c1s0b0n0'', MAC = ''b4:2e:99:a1:b2:c3'', IP = ''10.42.0.3''\<rparr>],
        [''192.168.100.1'', ''192.168.100.2'']) \<and>
   discover example_externals (Cidr (IPv4 10 42 0 0) 29)
     [\<lparr>Xname = ''x9000c1s0b0'', MAC = ''02:23:28:01:30:00'', IP = ''192.168.100.1''\<rparr>,
      \<lparr>Xname = ''x9000c1s0b0'', MAC = ''02:23:28:01:30:10'', IP = ''192.168.100.2''\<rparr>]
     [\<lparr>Xname = ''x9000c1s0b0n0'', MAC = ''b4:2e:99:a1:b2:c3'', IP = ''10.42.0.2''\<rparr>,
      \<lparr>Xname = ''x9000c1s0b0n0'', MAC = ''b4:2e:99:a1:b2:c3'', IP = ''10.42.0.3''\<rparr>] =
   Inr ([\<lparr>Xname = ''x9000c1s0b0n0'', MAC = ''b4:2e:99:a1:b2:c3'', IP = ''10.42.0.2''\<rparr>,
         \<lparr>Xname = ''x9000c1s0b0n0'', MAC = ''b4:2e:99:a1:b2:c3'', IP = ''10.42.0.2''\<rparr>],
        [''192.168.100.1'', ''192.168.100.2''])"
  by code_simp

subsection \<open>The host of a controller\<close>





section \<open>Properties of the admission gate\<close>

lemma count_list_update:
  assumes "i < length xs"
  shows "count_list (xs[i := y]) x + (if xs ! i = x then 1 else 0) =
     count_list xs x + (if y = x then 1 else 0)"
proof -
  have "mset (xs[i := y]) = add_mset y (mset xs - {#xs ! i#})"
    using assms by (rule mset_update)
  moreover have "xs ! i \<in># mset xs" using assms by simp
  ultimately have "add_mset (xs ! i) (mset (xs[i := y])) = add_mset y (mset xs)"
    by simp
  then have "count (add_mset (xs ! i) (mset (xs[i := y]))) x = count (add_mset y (mset xs)) x"
    by simp
  then show ?thesis by (auto simp: count_mset split: if_splits)
qed

lemma step_invariant:
  assumes "step cap s s'" and "sem s = in_flight s" and "in_flight s \<le> cap"
  shows "sem s' = in_flight s' \<and> in_flight s' \<le> cap \<and> length (phases s') = length (phases s)"
  using assms
proof (cases rule: step.cases)
  case (acquire i)
  from count_list_update [OF acquire(2), of Running Running] acquire(3)
  have "in_flight s' = in_flight s + 1" by (simp add: in_flight_def acquire(1))
  with acquire assms(2,3) show ?thesis by simp
next
  case (release i)
  from count_list_update [OF release(2), of Done Running] release(3)
  have "in_flight s' + 1 = in_flight s" by (simp add: in_flight_def release(1))
  with release assms(2,3) show ?thesis by simp
qed

lemma reachable_invariant:
  "reachable cap n s \<Longrightarrow>
     sem s = in_flight s \<and> in_flight s \<le> cap \<and> length (phases s) = n"
proof (induction rule: reachable.induct)
  case start
  have "count_list (replicate n Waiting) Running = 0" by (induction n) simp_all
  then show ?case by (simp add: in_flight_def)
next
  case (next_state s s')
  with step_invariant [of cap s s'] show ?case by simp
qed

lemma in_flight_le_length: "in_flight s \<le> length (phases s)"
  unfolding in_flight_def by (rule count_le_length)

lemma reachable_filled:
  "k \<le> cap \<Longrightarrow> k \<le> n \<Longrightarrow>
     reachable cap n \<lparr>sem = k, phases = replicate k Running @ replicate (n - k) Waiting\<rparr>"
proof (induction k)
  case 0
  show ?case using reachable.start [of cap n] by simp
next
  case (Suc k)
  let ?s = "\<lparr>sem = k, phases = replicate k Running @ replicate (n - k) Waiting\<rparr>"
  from Suc have r: "reachable cap n ?s" by simp
  from Suc.prems have kn: "k < n" and kc: "k < cap" by simp_all
  have i: "k < length (phases ?s)" using kn by simp
  have w: "phases ?s ! k = Waiting" using kn by (simp add: nth_append)
  have c: "sem ?s < cap" using kc by simp
  have "replicate (n - k) Waiting = Waiting # replicate (n - Suc k) Waiting"
    using kn by (cases "n - k") (simp_all add: Suc_diff_Suc)
  then have "(phases ?s)[k := Running] =
      replicate (Suc k) Running @ replicate (n - Suc k) Waiting"
    by (simp add: list_update_append replicate_append_same)
  with step.acquire [OF i w c] have "step cap ?s
      \<lparr>sem = Suc k, phases = replicate (Suc k) Running @ replicate (n - Suc k) Waiting\<rparr>"
    by simp
  with r show ?case by (rule reachable.next_state)
qed

lemma in_flight_filled:
  "in_flight \<lparr>sem = k, phases = replicate k Running @ replicate m Waiting\<rparr> = k"
proof -
  have "count_list (replicate m Waiting) Running = 0" by (induction m) simp_all
  moreover have "count_list (replicate k Running) Running = k" by (induction k) simp_all
  ultimately show ?thesis by (simp add: in_flight_def)
qed

text \<open>
  C8. In every state of a dispatch the number of operations in flight is at most the
  capacity of the channel, which is the batch size where that is at least 1 and 1 where
  it is 0 or 1 (or negative), and at most the number of hosts. The bound is reached: some
  state has as many operations in flight as the smaller of the capacity and the number of
  hosts, so a batch size of at least the number of hosts lets all hosts run at once.
\<close>

theorem C8_bounded_concurrency:
  "(reachable (capacity b) n s \<longrightarrow>
      in_flight s \<le> capacity b \<and> in_flight s \<le> n \<and> sem s = in_flight s) \<and>
   (1 \<le> b \<longrightarrow> capacity b = nat b) \<and>
   (b \<le> 1 \<longrightarrow> capacity b = 1) \<and>
   (\<exists>s. reachable (capacity b) n s \<and> in_flight s = min (capacity b) n) \<and>
   (int n \<le> b \<longrightarrow> (\<exists>s. reachable (capacity b) n s \<and> in_flight s = n))"
proof (intro conjI impI)
  assume r: "reachable (capacity b) n s"
  from reachable_invariant [OF r] show "in_flight s \<le> capacity b" by simp
  from reachable_invariant [OF r] in_flight_le_length [of s] show "in_flight s \<le> n" by simp
  from reachable_invariant [OF r] show "sem s = in_flight s" by simp
next
  assume "1 \<le> b"
  then show "capacity b = nat b" by (simp add: capacity_def max_def)
next
  assume "b \<le> 1"
  then show "capacity b = 1" by (simp add: capacity_def max_def)
next
  let ?k = "min (capacity b) n"
  have "reachable (capacity b) n
      \<lparr>sem = ?k, phases = replicate ?k Running @ replicate (n - ?k) Waiting\<rparr>"
    by (rule reachable_filled) simp_all
  then show "\<exists>s. reachable (capacity b) n s \<and> in_flight s = min (capacity b) n"
    using in_flight_filled [of ?k "n - ?k"] by blast
next
  assume "int n \<le> b"
  then have "n \<le> capacity b" unfolding capacity_def by linarith
  then have "reachable (capacity b) n
      \<lparr>sem = n, phases = replicate n Running @ replicate (n - n) Waiting\<rparr>"
    by (intro reachable_filled) simp_all
  then show "\<exists>s. reachable (capacity b) n s \<and> in_flight s = n"
    using in_flight_filled [of n "n - n"] by blast
qed

theorem C8_bounded_concurrency_witness:
  "reachable (capacity 2) 3 \<lparr>sem = 2, phases = [Running, Running, Waiting]\<rparr> \<and>
   in_flight \<lparr>sem = 2, phases = [Running, Running, Waiting]\<rparr> = 2 \<and>
   in_flight \<lparr>sem = 2, phases = [Running, Running, Waiting]\<rparr> \<le> capacity 2 \<and>
   capacity 2 = 2 \<and> capacity 0 = 1 \<and> capacity 1 = 1 \<and>
   reachable (capacity 5) 3 \<lparr>sem = 3, phases = [Running, Running, Running]\<rparr> \<and>
   in_flight \<lparr>sem = 3, phases = [Running, Running, Running]\<rparr> = 3"
proof -
  have c2: "capacity 2 = 2" and c5: "capacity 5 = 5" by (simp_all add: capacity_def)
  have r: "reachable (capacity 2) 3 \<lparr>sem = 2, phases = [Running, Running, Waiting]\<rparr>"
    using reachable_filled [of 2 "capacity 2" 3] by (simp add: c2 numeral_2_eq_2)
  have r5: "reachable (capacity 5) 3 \<lparr>sem = 3, phases = [Running, Running, Running]\<rparr>"
    using reachable_filled [of 3 "capacity 5" 3] by (simp add: c5 numeral_3_eq_3)
  have f: "in_flight \<lparr>sem = 2, phases = [Running, Running, Waiting]\<rparr> = 2"
    by (simp add: in_flight_def)
  have f5: "in_flight \<lparr>sem = 3, phases = [Running, Running, Running]\<rparr> = 3"
    by (simp add: in_flight_def)
  from C8_bounded_concurrency [of 2 3 "\<lparr>sem = 2, phases = [Running, Running, Waiting]\<rparr>"]
    C8_bounded_concurrency [of 0 3] C8_bounded_concurrency [of 1 3]
    C8_bounded_concurrency [of 5 3 "\<lparr>sem = 3, phases = [Running, Running, Running]\<rparr>"]
    r r5 f f5 c2
  show ?thesis by simp
qed

end
